theory Spec2Isabelle
  imports Main
begin

section \<open>Text primitives of the host language\<close>

text \<open>
  A text of the host language is a sequence of code units, addressed by position. The model
  carries the texts over the code units 0 to 255 as \<^typ>\<open>string\<close>, one \<^typ>\<open>char\<close> for each
  code unit, so that lengths and offsets are those of the source. The functions of this
  section are the library operations the editor calls (\<^verbatim>\<open>trim\<close>, \<^verbatim>\<open>split\<close> on a regular
  expression, \<^verbatim>\<open>join\<close>, \<^verbatim>\<open>indexOf\<close>, \<^verbatim>\<open>lastIndexOf\<close>, \<^verbatim>\<open>substring\<close>, \<^verbatim>\<open>replace\<close>),
  written out with their behaviour on every input.
\<close>

definition NL :: char where
  "NL = CHR 0x0A"

text \<open>
  The class \<^verbatim>\<open>\s\<close>, which is also what \<^verbatim>\<open>trim\<close> strips, within the code units carried: tab,
  line feed, vertical tab, form feed, carriage return, space and no-break space.
\<close>

definition is_space :: "char \<Rightarrow> bool" where
  "is_space c \<longleftrightarrow>
     c = CHR 0x09 \<or> c = CHR 0x0A \<or> c = CHR 0x0B \<or> c = CHR 0x0C \<or> c = CHR 0x0D \<or>
     c = CHR 0x20 \<or> c = CHR 0xA0"

definition trim :: "string \<Rightarrow> string" where
  "trim s = rev (dropWhile is_space (rev (dropWhile is_space s)))"

text \<open>
  \<^verbatim>\<open>s.split(/c{k,}/)\<close> for a character class \<open>P\<close> and \<open>k \<ge> 1\<close>: the separators are the
  maximal runs of at least \<open>k\<close> characters of the class. The match is greedy and is tried at
  each position from the left, so a run of length at least \<open>k\<close> is consumed whole from its
  first character, and a shorter run is ordinary text.
\<close>

function split_run :: "('a \<Rightarrow> bool) \<Rightarrow> nat \<Rightarrow> 'a list \<Rightarrow> 'a list list" where
  "split_run P k [] = [[]]"
| "split_run P k (c # cs) =
     (if P c \<and> k \<le> length (takeWhile P (c # cs))
      then [] # split_run P k (dropWhile P cs)
      else (case split_run P k cs of
              [] \<Rightarrow> [[c]]
            | p # ps \<Rightarrow> (c # p) # ps))"
  by pat_completeness auto
termination
  by (relation "measure (\<lambda>(P, k, s). length s)")
     (auto simp: less_Suc_eq_le length_dropWhile_le)

text \<open>\<^verbatim>\<open>parts.join(sep)\<close>\<close>

fun join :: "'a list \<Rightarrow> 'a list list \<Rightarrow> 'a list" where
  "join sep [] = []"
| "join sep [x] = x"
| "join sep (x # y # ys) = x @ sep @ join sep (y # ys)"

text \<open>
  \<^verbatim>\<open>s.indexOf(pat)\<close>: the least position at which \<open>pat\<close> occurs, \<open>-1\<close> when there is
  none; the empty pattern occurs at position 0.
\<close>

fun indexOf_from :: "'a list \<Rightarrow> 'a list \<Rightarrow> nat \<Rightarrow> int" where
  "indexOf_from pat [] i = (if pat = [] then int i else -1)"
| "indexOf_from pat (c # cs) i =
     (if take (length pat) (c # cs) = pat then int i else indexOf_from pat cs (Suc i))"

definition indexOf :: "'a list \<Rightarrow> 'a list \<Rightarrow> int" where
  "indexOf s pat = indexOf_from pat s 0"

text \<open>\<^verbatim>\<open>s.lastIndexOf(pat)\<close>: the greatest such position, \<open>-1\<close> when there is none.\<close>

fun lastIndexOf_from :: "'a list \<Rightarrow> 'a list \<Rightarrow> nat \<Rightarrow> int \<Rightarrow> int" where
  "lastIndexOf_from pat [] i found = (if pat = [] then int i else found)"
| "lastIndexOf_from pat (c # cs) i found =
     lastIndexOf_from pat cs (Suc i) (if take (length pat) (c # cs) = pat then int i else found)"

definition lastIndexOf :: "'a list \<Rightarrow> 'a list \<Rightarrow> int" where
  "lastIndexOf s pat = lastIndexOf_from pat s 0 (-1)"

text \<open>
  \<^verbatim>\<open>s.substring(a, b)\<close>: both indices are clamped to \<open>0 .. length s\<close> and swapped when
  \<open>a > b\<close>; \<^verbatim>\<open>s.substring(a)\<close> runs to the end of the text.
\<close>

definition substring :: "'a list \<Rightarrow> int \<Rightarrow> int \<Rightarrow> 'a list" where
  "substring s a b =
     (let n = int (length s);
          a' = min (max a 0) n;
          b' = min (max b 0) n;
          lo = min a' b';
          hi = max a' b'
      in take (nat (hi - lo)) (drop (nat lo) s))"

definition substring_from :: "'a list \<Rightarrow> int \<Rightarrow> 'a list" where
  "substring_from s a = substring s a (int (length s))"

text \<open>\<^verbatim>\<open>s.replace(/\n/g, ' ')\<close> and \<^verbatim>\<open>s.replace(/[\x00-\x1F\x7F]/g, ' ')\<close>\<close>

definition newlines_to_spaces :: "string \<Rightarrow> string" where
  "newlines_to_spaces s = map (\<lambda>c. if c = NL then CHR '' '' else c) s"

definition is_control :: "char \<Rightarrow> bool" where
  "is_control c \<longleftrightarrow> (of_char c :: nat) \<le> 0x1F \<or> (of_char c :: nat) = 0x7F"

definition strip_control :: "string \<Rightarrow> string" where
  "strip_control s = map (\<lambda>c. if is_control c then CHR '' '' else c) s"

text \<open>Decimal rendering of a number inside a template literal.\<close>

function show_nat :: "nat \<Rightarrow> string" where
  "show_nat n =
     (if n < 10 then [''0123456789'' ! n]
      else show_nat (n div 10) @ [''0123456789'' ! (n mod 10)])"
  by pat_completeness auto
termination
  by (relation "measure id") auto

declare show_nat.simps [simp del]

section \<open>Chunking planner (\<^verbatim>\<open>prepareDocument\<close>, grouping part)\<close>

definition MAX_WORDS_PER_CHUNK :: nat where
  "MAX_WORDS_PER_CHUNK = 1500"

text \<open>\<^verbatim>\<open>text.split(/\n\n+/)\<close>\<close>

definition paragraphs_of :: "string \<Rightarrow> string list" where
  "paragraphs_of text = split_run (\<lambda>c. c = NL) 2 text"

text \<open>\<^verbatim>\<open>para.trim().split(/\s+/).length\<close>\<close>

definition paraWords :: "string \<Rightarrow> nat" where
  "paraWords para = length (split_run is_space 1 (trim para))"

text \<open>
  The grouping loop. Its state is \<^verbatim>\<open>(chunks, currentChunk, currentWordCount)\<close>; the
  budget \<open>W\<close> is \<^verbatim>\<open>MAX_WORDS_PER_CHUNK\<close> in the source.
\<close>

fun group_loop ::
  "nat \<Rightarrow> string list \<Rightarrow> string list \<times> string list \<times> nat \<Rightarrow> string list \<times> string list \<times> nat"
where
  "group_loop W [] st = st"
| "group_loop W (para # rest) (chunks, currentChunk, currentWordCount) =
     (if currentWordCount + paraWords para > W \<and> length currentChunk > 0
      then group_loop W rest (chunks @ [join [NL, NL] currentChunk], [para], paraWords para)
      else group_loop W rest (chunks, currentChunk @ [para], currentWordCount + paraWords para))"

definition plan_chunks :: "nat \<Rightarrow> string \<Rightarrow> string list" where
  "plan_chunks W text =
     (case group_loop W (paragraphs_of text) ([], [], 0) of
        (chunks, currentChunk, currentWordCount) \<Rightarrow>
          if length currentChunk > 0 then chunks @ [join [NL, NL] currentChunk] else chunks)"

section \<open>Persistence: \<^verbatim>\<open>localStorage\<close>, \<^verbatim>\<open>storage\<close> and \<^verbatim>\<open>versioning\<close>\<close>

text \<open>
  A version as \<^verbatim>\<open>saveVersion\<close> builds it. The fields \<^verbatim>\<open>id\<close> and \<^verbatim>\<open>content\<close> are
  \<open>v_id\<close> and \<open>v_content\<close> here.
\<close>

record version =
  v_id :: nat
  v_content :: string
  label :: string
  timestamp :: string
  wordCount :: nat

text \<open>
  The browser store maps a key to a stored text. A stored text is represented by what it
  serialises: \<open>VersionList vs\<close> stands for \<^verbatim>\<open>JSON.stringify(vs)\<close>, \<open>Text s\<close> for a text
  that is not the serialisation of a list of versions (the raw content, a time stamp, the
  serialised chat log or preferences).
\<close>

datatype item = Text string | VersionList "version list"

type_synonym localStorage = "string \<rightharpoonup> item"

definition CONTENT :: string where
  "CONTENT = ''wop_editor_content''"

definition CHAT_HISTORY :: string where
  "CHAT_HISTORY = ''wop_chat_history''"

definition PREFERENCES :: string where
  "PREFERENCES = ''wop_preferences''"

definition LAST_SAVED :: string where
  "LAST_SAVED = ''wop_last_saved''"

text \<open>\<^verbatim>\<open>Object.values(STORAGE_KEYS)\<close>\<close>

definition STORAGE_KEYS :: "string list" where
  "STORAGE_KEYS = [CONTENT, CHAT_HISTORY, PREFERENCES, LAST_SAVED]"

definition VERSION_KEY :: string where
  "VERSION_KEY = ''wop_versions''"

definition MAX_VERSIONS :: nat where
  "MAX_VERSIONS = 5"

definition removeItem :: "localStorage \<Rightarrow> string \<Rightarrow> localStorage" where
  "removeItem ls key = ls(key := None)"

text \<open>
  \<^verbatim>\<open>setItem\<close> throws when the browser refuses the write (quota); \<open>accepted\<close> says
  whether the browser takes it.
\<close>

definition setItem :: "bool \<Rightarrow> localStorage \<Rightarrow> string \<Rightarrow> item \<Rightarrow> localStorage option" where
  "setItem accepted ls key v = (if accepted then Some (ls(key \<mapsto> v)) else None)"

text \<open>
  \<^verbatim>\<open>storage.clearAll\<close>: the \<^verbatim>\<open>forEach\<close> over the four storage keys; \<^verbatim>\<open>removeItem\<close> does not
  throw, so the result is \<^verbatim>\<open>true\<close>.
\<close>

definition clearAll :: "localStorage \<Rightarrow> bool \<times> localStorage" where
  "clearAll ls = (True, fold (\<lambda>key acc. removeItem acc key) STORAGE_KEYS ls)"

text \<open>
  \<^verbatim>\<open>versioning.getVersions\<close>: no entry and the empty text are falsy and give the empty list;
  on a text that does not parse \<^verbatim>\<open>JSON.parse\<close> throws and the handler gives the empty list.
  Only \<^verbatim>\<open>versioning\<close> writes under the version key, and it writes lists of versions; a text
  under this key that parses to something else is not in the model.
\<close>

definition getVersions :: "localStorage \<Rightarrow> version list" where
  "getVersions ls =
     (case ls VERSION_KEY of
        None \<Rightarrow> []
      | Some (Text s) \<Rightarrow> []
      | Some (VersionList vs) \<Rightarrow> vs)"

text \<open>\<^verbatim>\<open>content.trim().split(/\s+/).filter(w => w.length > 0).length\<close>\<close>

definition count_words :: "string \<Rightarrow> nat" where
  "count_words content = length (filter (\<lambda>w. length w > 0) (split_run is_space 1 (trim content)))"

text \<open>\<^verbatim>\<open>while (versions.length > MAX_VERSIONS) versions.pop()\<close>\<close>

function pop_excess :: "nat \<Rightarrow> 'a list \<Rightarrow> 'a list" where
  "pop_excess m vs = (if length vs > m then pop_excess m (butlast vs) else vs)"
  by pat_completeness auto
termination
  by (relation "measure (\<lambda>(m, vs). length vs)") auto

declare pop_excess.simps [simp del]

text \<open>
  \<^verbatim>\<open>versioning.saveVersion(content, label)\<close>. \<open>now_ms\<close> and \<open>now_iso\<close> are the two clock
  readings (\<^verbatim>\<open>Date.now()\<close>, \<^verbatim>\<open>new Date().toISOString()\<close>). The result is the new version and
  the store, or \<^verbatim>\<open>null\<close> and the store as it was when the write throws.
\<close>

definition saveVersion ::
  "bool \<Rightarrow> nat \<Rightarrow> string \<Rightarrow> localStorage \<Rightarrow> string \<Rightarrow> string \<Rightarrow> version option \<times> localStorage"
where
  "saveVersion accepted now_ms now_iso ls content lbl =
     (let versions = getVersions ls;
          newVersion = \<lparr> v_id = now_ms,
                         v_content = content,
                         label = (if lbl \<noteq> [] then lbl
                                  else ''Version '' @ show_nat (length versions + 1)),
                         timestamp = now_iso,
                         wordCount = count_words content \<rparr>;
          versions = pop_excess MAX_VERSIONS (newVersion # versions)
      in case setItem accepted ls VERSION_KEY (VersionList versions) of
           Some ls' \<Rightarrow> (Some newVersion, ls')
         | None \<Rightarrow> (None, ls))"

section \<open>The text-completion service\<close>

text \<open>
  One answer of \<^verbatim>\<open>fetch('/api/claude')\<close> as the callers read it:
  \<^item> \<open>HttpError status e\<close>: \<^verbatim>\<open>response.ok\<close> is false; \<open>e\<close> is the \<^verbatim>\<open>error\<close> field of the error
    body, \<open>None\<close> when the body does not parse or has no such field;
  \<^item> \<open>Threw m\<close>: the request or the reading of the body raised an exception with message \<open>m\<close>;
  \<^item> \<open>Answer texts\<close>: success, with the \<^verbatim>\<open>text\<close> of each content item (\<^verbatim>\<open>''\<close> for an item
    without text).
\<close>

datatype response = HttpError nat "string option" | Threw string | Answer "string list"

text \<open>What varies between the requests of the transform: the token limit and the user message.\<close>

record request =
  max_tokens :: nat
  user_content :: string

text \<open>The service answers the \<open>i\<close>-th request of an operation (counted from 0).\<close>

type_synonym service = "nat \<Rightarrow> request \<Rightarrow> response"

text \<open>\<^verbatim>\<open>errorData.error || fallback\<close>\<close>

definition error_or :: "string option \<Rightarrow> string \<Rightarrow> string" where
  "error_or e fallback = (case e of None \<Rightarrow> fallback | Some m \<Rightarrow> if m = [] then fallback else m)"

section \<open>Transform mode: \<^verbatim>\<open>prepareDocument\<close>\<close>

definition single_request :: "string \<Rightarrow> request" where
  "single_request text =
     \<lparr> max_tokens = 8000,
       user_content = ''Please prepare this document by converting footnotes to MLA inline citations and aligning terminology with the Church Style Guide:'' @ [NL, NL] @ text \<rparr>"

definition section_request :: "string \<Rightarrow> request" where
  "section_request chunk =
     \<lparr> max_tokens = 6000,
       user_content = ''Please prepare this section of a longer document. Convert footnotes to MLA inline citations and align terminology with the Church Style Guide. Return ONLY the transformed text:'' @ [NL, NL] @ chunk \<rparr>"

text \<open>
  The loop over the chunks, from index \<open>i\<close>. The result is the progress messages reported
  so far (one before each request) and either the message of the error thrown or the
  processed chunks.
\<close>

fun process_chunks ::
  "service \<Rightarrow> nat \<Rightarrow> nat \<Rightarrow> string list \<Rightarrow> string list \<Rightarrow> string list \<times> (string + string list)"
where
  "process_chunks api n i [] processedChunks = ([], Inr processedChunks)"
| "process_chunks api n i (chunk # rest) processedChunks =
     (let progress = ''Processing section '' @ show_nat (i + 1) @ '' of '' @ show_nat n @ ''...''
      in case api i (section_request chunk) of
           HttpError status e \<Rightarrow>
             ([progress],
              Inl (error_or e (''API error: '' @ show_nat status @ '' on section '' @ show_nat (i + 1))))
         | Threw m \<Rightarrow> ([progress], Inl m)
         | Answer texts \<Rightarrow>
             (case process_chunks api n (i + 1) rest (processedChunks @ [trim (concat texts)]) of
                (msgs, r) \<Rightarrow> (progress # msgs, r)))"

text \<open>
  \<^verbatim>\<open>prepareDocument(text, onProgress)\<close>, with the word budget \<open>W\<close> of the planner
  (\<^verbatim>\<open>MAX_WORDS_PER_CHUNK\<close> in the source). The result is the progress messages and either
  the message of the error thrown (\<open>Inl\<close>) or the prepared text.
\<close>

definition prepareDocument_with :: "nat \<Rightarrow> service \<Rightarrow> string \<Rightarrow> string list \<times> (string + string)" where
  "prepareDocument_with W api text =
     (let chunks = plan_chunks W text
      in if length chunks = 1
         then (''Processing document...'' # [],
               case api 0 (single_request text) of
                 HttpError status e \<Rightarrow> Inl (error_or e (''API error: '' @ show_nat status))
               | Threw m \<Rightarrow> Inl m
               | Answer texts \<Rightarrow> Inr (trim (concat texts)))
         else (case process_chunks api (length chunks) 0 chunks [] of
                 (msgs, Inl m) \<Rightarrow> (msgs, Inl m)
               | (msgs, Inr processedChunks) \<Rightarrow> (msgs, Inr (join [NL, NL] processedChunks))))"

definition prepareDocument :: "service \<Rightarrow> string \<Rightarrow> string list \<times> (string + string)" where
  "prepareDocument api text = prepareDocument_with MAX_WORDS_PER_CHUNK api text"

section \<open>The editor\<close>

text \<open>
  An element of the array the model returns, and a suggestion anchored in the document.
  The fields \<^verbatim>\<open>id\<close> and \<^verbatim>\<open>end\<close> of the source are \<open>sid\<close> and \<open>end_at\<close> here.
\<close>

record proposal =
  original :: string
  suggestion :: string
  reason :: string
  mode :: string

record anchored = proposal +
  sid :: nat
  start :: int
  end_at :: int

text \<open>
  A line of the chat log. The fixed wording of the assistant's notices (which carries
  glyphs outside the code units of \<^typ>\<open>string\<close>) is represented by one constructor per
  template, with the interpolated parts as arguments.
\<close>

datatype chat_line =
    Welcome
  | UserSaid string
  | AssistantSaid string
  | Preparing
  | Progress string
  | Prepared
  | PreparationIssue string
  | AnalysisFound nat
  | AnalysisClean
  | AnalysisIssue string
  | Applied string string
  | Dismissed

text \<open>The state of the \<^verbatim>\<open>Editor\<close> component that the operations read and write, and the store.\<close>

record editor =
  content :: string
  suggestions :: "anchored list"
  chatHistory :: "chat_line list"
  error :: "string option"
  isAnalyzing :: bool
  isPreparing :: bool
  showPrepareConfirm :: bool
  versions :: "version list"
  store :: localStorage

definition SAMPLE_TEXT :: string where
  "SAMPLE_TEXT =
     ''Paste your chapter content here to begin editing...'' @ [NL, NL] @
     ''The Words of Plainness Editorial Canvas is designed to help you refine your ministry writings with precision and care. Simply replace this text with your content and select an editorial focus area to begin.''"

text \<open>\<^verbatim>\<open>newHistory[newHistory.length - 1] = line\<close> (the progress callback)\<close>

definition replace_last :: "'a \<Rightarrow> 'a list \<Rightarrow> 'a list" where
  "replace_last x xs = (if xs = [] then xs else xs[length xs - 1 := x])"

text \<open>The progress callback: each message replaces the last line of the chat log.\<close>

definition report_progress :: "string list \<Rightarrow> editor \<Rightarrow> editor" where
  "report_progress msgs st =
     st\<lparr> chatHistory := fold (\<lambda>m h. replace_last (Progress m) h) msgs (chatHistory st) \<rparr>"

text \<open>The two ways out of the \<^verbatim>\<open>try\<close> block of \<^verbatim>\<open>handlePrepareDocument\<close>, then \<^verbatim>\<open>finally\<close>.\<close>

fun prepare_outcome :: "editor \<Rightarrow> string + string \<Rightarrow> editor" where
  "prepare_outcome st (Inr preparedText) =
     st\<lparr> content := preparedText,
         suggestions := [],
         chatHistory := chatHistory st @ [Prepared],
         isPreparing := False \<rparr>"
| "prepare_outcome st (Inl m) =
     st\<lparr> error := Some (''Document preparation failed: '' @ m),
         chatHistory := chatHistory st @ [PreparationIssue m],
         isPreparing := False \<rparr>"

text \<open>
  \<^verbatim>\<open>handlePrepareDocument\<close>. \<open>accepted\<close>, \<open>now_ms\<close> and \<open>now_iso\<close> are for the version saved
  before the transform.
\<close>

definition handlePrepareDocument ::
  "bool \<Rightarrow> nat \<Rightarrow> string \<Rightarrow> service \<Rightarrow> editor \<Rightarrow> editor"
where
  "handlePrepareDocument accepted now_ms now_iso api st =
     (if trim (content st) = [] \<or> content st = SAMPLE_TEXT
      then st\<lparr> error := Some ''Please paste your chapter content before preparing.'' \<rparr>
      else
        let st1 = st\<lparr> showPrepareConfirm := False, isPreparing := True, error := None \<rparr>;
            ls = snd (saveVersion accepted now_ms now_iso (store st1) (content st) ''Before preparation'');
            st2 = st1\<lparr> store := ls, versions := getVersions ls \<rparr>;
            st3 = st2\<lparr> chatHistory := chatHistory st2 @ [Preparing] \<rparr>;
            run = prepareDocument api (content st)
        in prepare_outcome (report_progress (fst run) st3) (snd run))"

section \<open>Analysis mode: \<^verbatim>\<open>callClaudeAPI\<close> and \<^verbatim>\<open>analyzeContent\<close>\<close>

text \<open>\<^verbatim>\<open>callClaudeAPI\<close>: the message of the error thrown (\<open>Inl\<close>) or the answer's texts joined by line feeds.\<close>

fun callClaudeAPI :: "response \<Rightarrow> string + string" where
  "callClaudeAPI (HttpError status e) = Inl (error_or e (''API error: '' @ show_nat status))"
| "callClaudeAPI (Threw m) = Inl m"
| "callClaudeAPI (Answer texts) = Inr (join [NL] texts)"

text \<open>
  The anchoring step, the callback of \<^verbatim>\<open>parsedSuggestions.map\<close>, on the document \<open>doc\<close>
  (the \<^verbatim>\<open>content\<close> of the editor): \<open>None\<close> is \<^verbatim>\<open>null\<close>.
\<close>

definition anchor :: "string \<Rightarrow> nat \<times> proposal \<Rightarrow> anchored option" where
  "anchor doc p =
     (case p of (idx, s) \<Rightarrow>
        let pos = indexOf doc (original s)
        in if pos = -1 then None
           else Some \<lparr> original = original s,
                        suggestion = suggestion s,
                        reason = reason s,
                        mode = mode s,
                        sid = idx + 1,
                        start = pos,
                        end_at = pos + int (length (original s)) \<rparr>)"

text \<open>\<^verbatim>\<open>parsedSuggestions.map((s, idx) => ...).filter(s => s !== null)\<close>\<close>

definition processSuggestions :: "string \<Rightarrow> proposal list \<Rightarrow> anchored list" where
  "processSuggestions doc parsedSuggestions =
     map the (filter (\<lambda>s. s \<noteq> None) (map (anchor doc) (enumerate 0 parsedSuggestions)))"

definition quote :: string where
  "quote = [CHR 0x22]"

text \<open>\<^verbatim>\<open>text.substring(0, 300).replace(/\n/g, ' ')\<close>\<close>

definition preview :: "string \<Rightarrow> string" where
  "preview text = newlines_to_spaces (substring text 0 300)"

text \<open>The \<^verbatim>\<open>catch\<close> block of \<^verbatim>\<open>analyzeContent\<close>, then \<^verbatim>\<open>finally\<close>.\<close>

definition analysis_failed :: "editor \<Rightarrow> string \<Rightarrow> editor" where
  "analysis_failed st m =
     st\<lparr> error := Some (''Analysis failed: '' @ m),
         chatHistory := chatHistory st @ [AnalysisIssue m],
         isAnalyzing := False \<rparr>"

text \<open>The end of the \<^verbatim>\<open>try\<close> block of \<^verbatim>\<open>analyzeContent\<close>, then \<^verbatim>\<open>finally\<close>.\<close>

definition analysis_done :: "editor \<Rightarrow> anchored list \<Rightarrow> editor" where
  "analysis_done st processedSuggestions =
     st\<lparr> suggestions := processedSuggestions,
         chatHistory := chatHistory st @
           [if length processedSuggestions > 0 then AnalysisFound (length processedSuggestions)
            else AnalysisClean],
         isAnalyzing := False \<rparr>"

text \<open>
  \<^verbatim>\<open>jsonString\<close>: the text from the first opening bracket to the last closing bracket,
  with each control character replaced by a space.
\<close>

definition jsonString_of :: "string \<Rightarrow> int \<Rightarrow> int \<Rightarrow> string" where
  "jsonString_of response startBracket endBracket =
     strip_control (substring response startBracket (endBracket + 1))"

text \<open>
  The body of the \<^verbatim>\<open>try\<close> block from the answer of \<^verbatim>\<open>callClaudeAPI\<close> on: the message of
  the error thrown, or the processed suggestions. \<open>JSON_parse\<close> is the parser of the host
  language on the texts that begin with a bracket: the message of its syntax error, or the
  elements of the array, taken to be objects with the four text fields.
\<close>

definition extract_suggestions ::
  "(string \<Rightarrow> string + proposal list) \<Rightarrow> string \<Rightarrow> string \<Rightarrow> string + anchored list"
where
  "extract_suggestions JSON_parse doc response =
     (let startBracket = indexOf response ''['';
          endBracket = lastIndexOf response '']''
      in if startBracket = -1 \<or> endBracket = -1
         then Inl (''No JSON array found. Response was: '' @ quote @ preview response @ ''...'' @ quote)
         else
           let jsonString = jsonString_of response startBracket endBracket
           in case JSON_parse jsonString of
                Inl parseError \<Rightarrow>
                  Inl (''JSON parse failed: '' @ parseError @ ''. JSON started with: '' @ quote @
                       preview jsonString @ ''...'' @ quote)
              | Inr parsedSuggestions \<Rightarrow> Inr (processSuggestions doc parsedSuggestions))"

text \<open>\<^verbatim>\<open>analyzeContent\<close>, given the parser and the answer of the service to its one request.\<close>

definition analyzeContent ::
  "(string \<Rightarrow> string + proposal list) \<Rightarrow> response \<Rightarrow> editor \<Rightarrow> editor"
where
  "analyzeContent JSON_parse answer st =
     (if trim (content st) = [] \<or> content st = SAMPLE_TEXT
      then st\<lparr> error := Some ''Please paste your chapter content before analyzing.'' \<rparr>
      else
        let st1 = st\<lparr> isAnalyzing := True, error := None, suggestions := [] \<rparr>
        in case callClaudeAPI answer of
             Inl m \<Rightarrow> analysis_failed st1 m
           | Inr response \<Rightarrow>
               (case extract_suggestions JSON_parse (content st) response of
                  Inl m \<Rightarrow> analysis_failed st1 m
                | Inr processedSuggestions \<Rightarrow> analysis_done st1 processedSuggestions))"

section \<open>The suggestion set: accept, dismiss, render\<close>

text \<open>\<^verbatim>\<open>text.substring(0, 50)\<close> followed by \<^verbatim>\<open>'...'\<close> when the text is longer\<close>

definition shortened :: "string \<Rightarrow> string" where
  "shortened text = substring text 0 50 @ (if length text > 50 then ''...'' else [])"

definition acceptSuggestion :: "anchored \<Rightarrow> editor \<Rightarrow> editor" where
  "acceptSuggestion s st =
     (let newContent = substring (content st) 0 (start s) @ suggestion s @
                       substring_from (content st) (end_at s)
      in st\<lparr> content := newContent,
             suggestions := filter (\<lambda>t. sid t \<noteq> sid s) (suggestions st),
             chatHistory := chatHistory st @ [Applied (shortened (original s)) (shortened (suggestion s))] \<rparr>)"

definition dismissSuggestion :: "anchored \<Rightarrow> editor \<Rightarrow> editor" where
  "dismissSuggestion s st =
     st\<lparr> suggestions := filter (\<lambda>t. sid t \<noteq> sid s) (suggestions st),
         chatHistory := chatHistory st @ [Dismissed] \<rparr>"

text \<open>
  What \<^verbatim>\<open>renderContentWithHighlights\<close> returns: the content itself, or a list of spans. A
  plain span carries its text; a highlight is built for one suggestion (its key, colour and
  hover handlers come from the suggestion) and carries the text it shows.
\<close>

datatype span = Plain string | Highlight anchored string

datatype rendering = Content string | Spans "span list"

text \<open>
  The \<^verbatim>\<open>forEach\<close> over the sorted suggestions, from \<^verbatim>\<open>lastIndex\<close>: the spans pushed and
  the last value of \<^verbatim>\<open>lastIndex\<close>.
\<close>

fun highlight_loop :: "string \<Rightarrow> int \<Rightarrow> anchored list \<Rightarrow> span list \<times> int" where
  "highlight_loop doc lastIndex [] = ([], lastIndex)"
| "highlight_loop doc lastIndex (s # rest) =
     (case highlight_loop doc (end_at s) rest of
        (spans, final) \<Rightarrow>
          ((if start s > lastIndex then [Plain (substring doc lastIndex (start s))] else []) @
           Highlight s (substring doc (start s) (end_at s)) # spans,
           final))"

text \<open>
  \<^verbatim>\<open>renderContentWithHighlights\<close>. The comparator \<^verbatim>\<open>(a, b) => a.start - b.start\<close> orders by
  \<open>start\<close>, and the sort of the host language is stable, as \<^const>\<open>sort_key\<close> is.
\<close>

definition renderContentWithHighlights :: "editor \<Rightarrow> rendering" where
  "renderContentWithHighlights st =
     (if length (suggestions st) = 0 then Content (content st)
      else
        let sortedSuggestions = sort_key start (suggestions st)
        in case highlight_loop (content st) 0 sortedSuggestions of
             (result, lastIndex) \<Rightarrow>
               Spans (result @
                      (if lastIndex < int (length (content st))
                       then [Plain (substring_from (content st) lastIndex)] else [])))"

section \<open>Notions used in the statements\<close>

text \<open>The text a span shows.\<close>

fun span_text :: "span \<Rightarrow> string" where
  "span_text (Plain t) = t"
| "span_text (Highlight s t) = t"

text \<open>The highlights among the spans of a rendering, with the text each shows.\<close>

fun highlights :: "span list \<Rightarrow> (anchored \<times> string) list" where
  "highlights [] = []"
| "highlights (Plain t # rest) = highlights rest"
| "highlights (Highlight s t # rest) = (s, t) # highlights rest"

text \<open>
  Suggestions in display order are laid out between \<open>lo\<close> and \<open>hi\<close> when each one starts
  where the one before it ended, or later, and none ends before it starts.
\<close>

fun laid_out :: "int \<Rightarrow> anchored list \<Rightarrow> int \<Rightarrow> bool" where
  "laid_out lo [] hi = (lo \<le> hi)"
| "laid_out lo (s # rest) hi = (lo \<le> start s \<and> start s \<le> end_at s \<and> laid_out (end_at s) rest hi)"

text \<open>The four fields of a suggestion that come from the model's element.\<close>

definition proposal_of :: "anchored \<Rightarrow> proposal" where
  "proposal_of s =
     \<lparr> original = original s, suggestion = suggestion s, reason = reason s, mode = mode s \<rparr>"

text \<open>The pattern occurs in the document at position \<open>k\<close>.\<close>

definition occurs_at :: "'a list \<Rightarrow> 'a list \<Rightarrow> nat \<Rightarrow> bool" where
  "occurs_at doc pat k \<longleftrightarrow> k \<le> length doc \<and> take (length pat) (drop k doc) = pat"

text \<open>The pattern occurs in the document somewhere.\<close>

definition occurs :: "'a list \<Rightarrow> 'a list \<Rightarrow> bool" where
  "occurs doc pat \<longleftrightarrow> list_ex (occurs_at doc pat) [0 ..< Suc (length doc)]"

text \<open>The anchoring of \<^const>\<open>processSuggestions\<close> with the array indices counted from \<open>n\<close>.\<close>

definition anchors_from :: "string \<Rightarrow> nat \<Rightarrow> proposal list \<Rightarrow> anchored list" where
  "anchors_from doc n ps = map the (filter (\<lambda>s. s \<noteq> None) (map (anchor doc) (enumerate n ps)))"

text \<open>The requests the transform sends when none fails, in order.\<close>

definition requests_of :: "nat \<Rightarrow> string \<Rightarrow> request list" where
  "requests_of W doc =
     (if length (plan_chunks W doc) = 1 then [single_request doc]
      else map section_request (plan_chunks W doc))"

text \<open>A request fails when its answer is not a success.\<close>

fun failed :: "response \<Rightarrow> bool" where
  "failed (Answer texts) = False"
| "failed (HttpError status e) = True"
| "failed (Threw m) = True"

text \<open>
  The message of the error raised on a failed answer, where \<open>place\<close> is what follows the
  status in the default message.
\<close>

fun failure_text :: "string \<Rightarrow> response \<Rightarrow> string" where
  "failure_text place (HttpError status e) = error_or e (''API error: '' @ show_nat status @ place)"
| "failure_text place (Threw m) = m"
| "failure_text place (Answer texts) = []"

text \<open>What follows the status for request \<open>i\<close> of \<open>n\<close>: nothing when there is one request.\<close>

definition place_of :: "nat \<Rightarrow> nat \<Rightarrow> string" where
  "place_of n i = (if n = 1 then [] else '' on section '' @ show_nat (i + 1))"

text \<open>A text has a long break when three line feeds stand in a row somewhere in it.\<close>

fun has_long_break :: "string \<Rightarrow> bool" where
  "has_long_break (a # b # c # r) = ((a = NL \<and> b = NL \<and> c = NL) \<or> has_long_break (b # c # r))"
| "has_long_break _ = False"

section \<open>Concrete inputs\<close>

text \<open>An editor at rest, with a document and a set of pending suggestions.\<close>

definition editor_with :: "string \<Rightarrow> anchored list \<Rightarrow> editor" where
  "editor_with doc pending =
     \<lparr> content = doc, suggestions = pending, chatHistory = [Welcome], error = None,
       isAnalyzing = False, isPreparing = False, showPrepareConfirm = False,
       versions = [], store = Map.empty \<rparr>"

text \<open>An element of the model's array, with reason \<^verbatim>\<open>x\<close> and mode \<^verbatim>\<open>clarity\<close>.\<close>

definition proposing :: "string \<Rightarrow> string \<Rightarrow> proposal" where
  "proposing old new = \<lparr> original = old, suggestion = new, reason = ''x'', mode = ''clarity'' \<rparr>"

text \<open>
  The JSON text of an array of such elements (for texts without characters to escape), and
  a parser that reads this one text and rejects every other.
\<close>

definition json_object :: "proposal \<Rightarrow> string" where
  "json_object p =
     ''{'' @ quote @ ''original'' @ quote @ '':'' @ quote @ original p @ quote @
     '','' @ quote @ ''suggestion'' @ quote @ '':'' @ quote @ suggestion p @ quote @
     '','' @ quote @ ''reason'' @ quote @ '':'' @ quote @ reason p @ quote @
     '','' @ quote @ ''mode'' @ quote @ '':'' @ quote @ mode p @ quote @ ''}''"

definition json_array :: "proposal list \<Rightarrow> string" where
  "json_array ps = ''['' @ join '','' (map json_object ps) @ '']''"

definition reads_only :: "proposal list \<Rightarrow> string \<Rightarrow> string + proposal list" where
  "reads_only ps js = (if js = json_array ps then Inr ps else Inl ''Unexpected token'')"

text \<open>
  A paragraph of \<open>n + 1\<close> one-letter words, and a service whose second answer is an error
  with status 503 and no error text.
\<close>

definition long_paragraph :: "nat \<Rightarrow> string" where
  "long_paragraph n = concat (replicate n ''a '') @ ''a''"

definition second_fails :: service where
  "second_fails i r = (if i = 1 then HttpError 503 None else Answer [''done''])"

section \<open>Lemmas on the text primitives\<close>

lemma split_run_nonempty: "split_run P k s \<noteq> []"
  by (induction P k s rule: split_run.induct) (auto split: list.splits)

lemma split_run_sep:
  assumes "P c \<and> k \<le> length (takeWhile P (c # cs))"
  shows "split_run P k (c # cs) = [] # split_run P k (dropWhile P cs)"
  by (subst split_run.simps) (simp only: assms simp_thms if_True)

lemma split_run_keep:
  assumes "\<not> (P c \<and> k \<le> length (takeWhile P (c # cs)))" and "split_run P k cs = p # ps"
  shows "split_run P k (c # cs) = (c # p) # ps"
  by (subst split_run.simps) (simp only: assms simp_thms if_False list.case)

lemma join_Cons: "xs \<noteq> [] \<Longrightarrow> join sep (x # xs) = x @ sep @ join sep xs"
  by (cases xs) auto

lemma join_append:
  "xs \<noteq> [] \<Longrightarrow> ys \<noteq> [] \<Longrightarrow> join sep (xs @ ys) = join sep xs @ sep @ join sep ys"
  by (induction sep xs rule: join.induct) (auto simp: join_Cons)

lemma join_groups:
  "\<forall>g \<in> set gs. g \<noteq> [] \<Longrightarrow> join sep (map (join sep) gs) = join sep (concat gs)"
proof (induction gs)
  case Nil
  then show ?case by simp
next
  case (Cons g gs)
  show ?case
  proof (cases gs)
    case Nil
    then show ?thesis by simp
  next
    case (Cons h hs)
    with Cons.prems have ne: "g \<noteq> []" "concat gs \<noteq> []" by auto
    from Cons.prems Cons.IH have "join sep (map (join sep) gs) = join sep (concat gs)" by simp
    with ne Cons show ?thesis by (simp add: join_append)
  qed
qed

section \<open>The chunking planner\<close>

lemma group_loop_groups:
  assumes "\<forall>g \<in> set gs. g \<noteq> []"
  shows "\<exists>gs' cur' n'. group_loop W ps (map (join [NL, NL]) gs, cur, n) = (map (join [NL, NL]) gs', cur', n')
           \<and> concat gs' @ cur' = concat gs @ cur @ ps \<and> (\<forall>g \<in> set gs'. g \<noteq> [])"
  using assms
proof (induction ps arbitrary: gs cur n)
  case Nil
  then show ?case by auto
next
  case (Cons para rest)
  show ?case
  proof (cases "n + paraWords para > W \<and> length cur > 0")
    case True
    then have ne: "\<forall>g \<in> set (gs @ [cur]). g \<noteq> []" using Cons.prems by auto
    from Cons.IH[OF ne, of "[para]" "paraWords para"] True
    show ?thesis by auto
  next
    case False
    from Cons.IH[OF Cons.prems, of "cur @ [para]" "n + paraWords para"] False
    show ?thesis by auto
  qed
qed

lemma plan_chunks_groups:
  "\<exists>gs. plan_chunks W text = map (join [NL, NL]) gs \<and> concat gs = paragraphs_of text
        \<and> (\<forall>g \<in> set gs. g \<noteq> [])"
proof -
  from group_loop_groups[of "[]" W "paragraphs_of text" "[]" 0]
  obtain gs' cur' n' where
    g: "group_loop W (paragraphs_of text) ([], [], 0) = (map (join [NL, NL]) gs', cur', n')"
    and c: "concat gs' @ cur' = paragraphs_of text" and ne: "\<forall>g \<in> set gs'. g \<noteq> []"
    by auto
  show ?thesis
  proof (cases "cur' = []")
    case True
    with g c ne show ?thesis by (auto simp: plan_chunks_def)
  next
    case False
    with g c ne have "plan_chunks W text = map (join [NL, NL]) (gs' @ [cur'])
        \<and> concat (gs' @ [cur']) = paragraphs_of text \<and> (\<forall>g \<in> set (gs' @ [cur']). g \<noteq> [])"
      by (auto simp: plan_chunks_def)
    then show ?thesis by blast
  qed
qed

lemma join_paragraphs_gen:
  "P = (\<lambda>c. c = NL) \<Longrightarrow> k = 2 \<Longrightarrow> \<not> has_long_break s \<Longrightarrow> join [NL, NL] (split_run P k s) = s"
proof (induction P k s rule: split_run.induct)
  case (1 P k)
  then show ?case by simp
next
  case (2 P k c cs)
  note Pk = \<open>P = (\<lambda>c. c = NL)\<close> \<open>k = 2\<close>
  show ?case
  proof (cases "P c \<and> k \<le> length (takeWhile P (c # cs))")
    case True
    then obtain cs' where cs: "cs = NL # cs'" using Pk by (cases cs) (auto split: if_splits)
    from True Pk cs "2.prems"(3) have c: "c = NL" by simp
    with cs "2.prems"(3) have nt: "\<not> has_long_break cs'" and hd: "cs' = [] \<or> hd cs' \<noteq> NL"
      by (cases cs'; cases "tl cs'"; auto)+
    from hd have dw: "dropWhile P cs = cs'" using cs Pk by (cases cs') auto
    from "2.IH"(1)[OF True Pk] nt dw have "join [NL, NL] (split_run P k cs') = cs'" by simp
    moreover have "split_run P k (c # cs) = [] # split_run P k (dropWhile P cs)"
      by (rule split_run_sep[OF True])
    ultimately show ?thesis using cs c dw by (simp add: join_Cons split_run_nonempty)
  next
    case False
    have "\<not> has_long_break cs" using "2.prems"(3) by (cases cs; cases "tl cs"; auto)
    with "2.IH"(2)[OF False Pk] have ih: "join [NL, NL] (split_run P k cs) = cs" by simp
    obtain p ps where sp: "split_run P k cs = p # ps"
      using split_run_nonempty[of P k cs] by (cases "split_run P k cs") auto
    have "join [NL, NL] ((c # p) # ps) = c # join [NL, NL] (p # ps)" by (cases ps) auto
    moreover have "split_run P k (c # cs) = (c # p) # ps"
      by (rule split_run_keep[OF False sp])
    ultimately show ?thesis using sp ih by simp
  qed
qed

lemma join_paragraphs_len:
  "P = (\<lambda>c. c = NL) \<Longrightarrow> k = 2 \<Longrightarrow>
     length (join [NL, NL] (split_run P k s)) \<le> length s \<and>
     (has_long_break s \<longrightarrow> length (join [NL, NL] (split_run P k s)) < length s)"
proof (induction P k s rule: split_run.induct)
  case (1 P k)
  then show ?case by simp
next
  case (2 P k c cs)
  note Pk = \<open>P = (\<lambda>c. c = NL)\<close> \<open>k = 2\<close>
  show ?case
  proof (cases "P c \<and> k \<le> length (takeWhile P (c # cs))")
    case True
    then obtain cs' where cs: "cs = NL # cs'" using Pk by (cases cs) (auto split: if_splits)
    from True Pk have c: "c = NL" by simp
    let ?d = "dropWhile P cs"
    have dw: "?d = dropWhile P cs'" using cs Pk by simp
    have le: "length ?d \<le> length cs'" unfolding dw by (rule length_dropWhile_le)
    have "split_run P k (c # cs) = [] # split_run P k ?d"
      by (rule split_run_sep[OF True])
    then have eq: "join [NL, NL] (split_run P k (c # cs)) = [NL, NL] @ join [NL, NL] (split_run P k ?d)"
      by (simp add: join_Cons split_run_nonempty)
    from "2.IH"(1)[OF True Pk] have ih1: "length (join [NL, NL] (split_run P k ?d)) \<le> length ?d"
      and ih2: "has_long_break ?d \<Longrightarrow> length (join [NL, NL] (split_run P k ?d)) < length ?d"
      by auto
    have "length (join [NL, NL] (split_run P k (c # cs))) < length (c # cs)"
      if h: "has_long_break (c # cs)"
    proof (cases "cs' \<noteq> [] \<and> hd cs' = NL")
      case True
      then have "length (dropWhile P cs') < length cs'" using Pk by (cases cs') (auto simp: less_Suc_eq_le length_dropWhile_le)
      with ih1 dw eq cs show ?thesis by simp
    next
      case False
      then have "dropWhile P cs' = cs'" using Pk by (cases cs') auto
      moreover from False h c cs have "has_long_break cs'" by (cases cs'; cases "tl cs'"; auto)
      ultimately show ?thesis using ih2 dw eq cs by simp
    qed
    moreover have "length (join [NL, NL] (split_run P k (c # cs))) \<le> length (c # cs)"
      using eq ih1 le cs by simp
    ultimately show ?thesis by blast
  next
    case False
    obtain p ps where sp: "split_run P k cs = p # ps"
      using split_run_nonempty[of P k cs] by (cases "split_run P k cs") auto
    have j: "join [NL, NL] ((c # p) # ps) = c # join [NL, NL] (p # ps)" by (cases ps) auto
    have hl: "has_long_break (c # cs) \<Longrightarrow> has_long_break cs"
      using False Pk by (cases cs; cases "tl cs"; auto)
    have "split_run P k (c # cs) = (c # p) # ps"
      by (rule split_run_keep[OF False sp])
    with "2.IH"(2)[OF False Pk] sp j hl show ?thesis by auto
  qed
qed

lemma join_paragraphs_iff:
  "join [NL, NL] (paragraphs_of s) = s \<longleftrightarrow> \<not> has_long_break s"
  using join_paragraphs_gen[OF refl refl, of s] join_paragraphs_len[OF refl refl, of s]
  by (auto simp: paragraphs_of_def)

lemma join_plan_chunks: "join [NL, NL] (plan_chunks W D) = join [NL, NL] (paragraphs_of D)"
proof -
  from plan_chunks_groups[of W D] obtain gs where
    "plan_chunks W D = map (join [NL, NL]) gs" "concat gs = paragraphs_of D"
    "\<forall>g \<in> set gs. g \<noteq> []"
    by blast
  then show ?thesis using join_groups[of gs "[NL, NL]"] by simp
qed

text \<open>
  C3, as stated, fails: the planner splits at every run of two or more line feeds and the
  segments are joined by exactly two, so a document with three line feeds in a row does not
  come back.
\<close>

theorem C3_roundtrip_counterexample:
  "join [NL, NL] (plan_chunks MAX_WORDS_PER_CHUNK (''a'' @ [NL, NL, NL] @ ''b'')) = ''a'' @ [NL, NL] @ ''b''
   \<and> join [NL, NL] (plan_chunks MAX_WORDS_PER_CHUNK (''a'' @ [NL, NL, NL] @ ''b'')) \<noteq> ''a'' @ [NL, NL, NL] @ ''b''"
  unfolding join_plan_chunks paragraphs_of_def by (simp add: NL_def)

text \<open>
  C3, amended: for every word budget \<open>W\<close>, joining the segments of the planner in order
  with a blank-line separator gives back the document exactly when the document has no
  three line feeds in a row.
\<close>

theorem C3_roundtrip:
  "join [NL, NL] (plan_chunks W D) = D \<longleftrightarrow> \<not> has_long_break D"
  by (simp add: join_plan_chunks join_paragraphs_iff)

theorem C3_roundtrip_witness:
  "\<not> has_long_break (''a b'' @ [NL, NL] @ ''c'' @ [NL] @ ''d'' @ [NL, NL] @ ''e'')
   \<and> join [NL, NL] (plan_chunks 2 (''a b'' @ [NL, NL] @ ''c'' @ [NL] @ ''d'' @ [NL, NL] @ ''e''))
       = ''a b'' @ [NL, NL] @ ''c'' @ [NL] @ ''d'' @ [NL, NL] @ ''e''"
  using C3_roundtrip[of 2 "''a b'' @ [NL, NL] @ ''c'' @ [NL] @ ''d'' @ [NL, NL] @ ''e''"]
  by (simp add: NL_def)

text \<open>
  C9: for every document and every word budget \<open>W\<close>, the segments of the planner are the
  paragraphs of the document, in order, cut into consecutive non-empty groups, each group
  joined by blank lines: every paragraph lies whole in exactly one segment, whatever its
  length.
\<close>

theorem C9_paragraphs_whole:
  "\<exists>groups. plan_chunks W text = map (join [NL, NL]) groups
            \<and> concat groups = paragraphs_of text
            \<and> (\<forall>g \<in> set groups. g \<noteq> [])"
  by (rule plan_chunks_groups)

theorem C9_paragraphs_whole_witness:
  "plan_chunks 1 (''a b c'' @ [NL, NL] @ ''d'' @ [NL, NL] @ ''e'') = [''a b c'', ''d'', ''e'']
   \<and> paragraphs_of (''a b c'' @ [NL, NL] @ ''d'' @ [NL, NL] @ ''e'') = [''a b c'', ''d'', ''e'']
   \<and> (\<exists>groups. plan_chunks 1 (''a b c'' @ [NL, NL] @ ''d'' @ [NL, NL] @ ''e'') = map (join [NL, NL]) groups
            \<and> concat groups = paragraphs_of (''a b c'' @ [NL, NL] @ ''d'' @ [NL, NL] @ ''e'')
            \<and> (\<forall>g \<in> set groups. g \<noteq> []))"
  using C9_paragraphs_whole[of 1 "''a b c'' @ [NL, NL] @ ''d'' @ [NL, NL] @ ''e''"]
  by (simp add: plan_chunks_def paragraphs_of_def paraWords_def trim_def is_space_def NL_def)

section \<open>The version ledger\<close>

lemma pop_excess_take: "pop_excess m vs = take m vs"
proof (induction m vs rule: pop_excess.induct)
  case (1 m vs)
  show ?case
  proof (cases "length vs > m")
    case True
    with 1 have "pop_excess m vs = take m (butlast vs)" by (subst pop_excess.simps) simp
    also have "\<dots> = take m vs" using True by (simp add: take_butlast)
    finally show ?thesis .
  next
    case False
    then show ?thesis by (subst pop_excess.simps) simp
  qed
qed

lemma getVersions_saved: "getVersions (ls(VERSION_KEY \<mapsto> VersionList vs)) = vs"
  by (simp add: getVersions_def)

lemma saveVersion_refused:
  "saveVersion False now_ms now_iso ls doc lbl = (None, ls)"
  by (simp add: saveVersion_def setItem_def Let_def)

lemma saveVersion_accepted_ex:
  "\<exists>v. saveVersion True now_ms now_iso ls doc lbl =
        (Some v, ls(VERSION_KEY \<mapsto> VersionList (v # take (MAX_VERSIONS - 1) (getVersions ls))))
       \<and> v_content v = doc \<and> v_id v = now_ms"
  by (simp add: saveVersion_def setItem_def Let_def pop_excess_take MAX_VERSIONS_def)

text \<open>
  C7: a ledger of at most 5 versions holds at most 5 after any call of \<^verbatim>\<open>saveVersion\<close>; a
  call whose write the store accepts returns the new version, leaves at most 5 versions
  whatever was held before, puts the new version first and keeps the 4 newest of the old
  ones behind it, so that with 5 held exactly the oldest (the last) is evicted; a call whose
  write is refused returns \<^verbatim>\<open>null\<close> and changes nothing.
\<close>

theorem C7_ledger_bound:
  "(length (getVersions ls) \<le> MAX_VERSIONS \<longrightarrow>
      length (getVersions (snd (saveVersion accepted now_ms now_iso ls doc lbl))) \<le> MAX_VERSIONS)
   \<and> (accepted \<longrightarrow>
        (\<exists>v. fst (saveVersion accepted now_ms now_iso ls doc lbl) = Some v
           \<and> v_content v = doc
           \<and> length (getVersions (snd (saveVersion accepted now_ms now_iso ls doc lbl))) \<le> MAX_VERSIONS
           \<and> getVersions (snd (saveVersion accepted now_ms now_iso ls doc lbl))
               = v # take (MAX_VERSIONS - 1) (getVersions ls)
           \<and> (length (getVersions ls) = MAX_VERSIONS \<longrightarrow>
                getVersions (snd (saveVersion accepted now_ms now_iso ls doc lbl))
                  = v # butlast (getVersions ls))))
   \<and> (\<not> accepted \<longrightarrow> saveVersion accepted now_ms now_iso ls doc lbl = (None, ls))"
proof (cases accepted)
  case False
  then show ?thesis by (simp add: saveVersion_refused)
next
  case True
  from saveVersion_accepted_ex[of now_ms now_iso ls doc lbl] obtain v where
    v: "saveVersion True now_ms now_iso ls doc lbl =
        (Some v, ls(VERSION_KEY \<mapsto> VersionList (v # take (MAX_VERSIONS - 1) (getVersions ls))))"
    "v_content v = doc" by blast
  have b: "length (getVersions ls) = MAX_VERSIONS \<Longrightarrow>
      take (MAX_VERSIONS - 1) (getVersions ls) = butlast (getVersions ls)"
    by (simp add: butlast_conv_take)
  show ?thesis using True v b by (auto simp: getVersions_saved MAX_VERSIONS_def)
qed

theorem C7_ledger_bound_witness:
  "length (getVersions [VERSION_KEY \<mapsto> VersionList [\<lparr> v_id = 5, v_content = ''v5'', label = ''Version 5'', timestamp = ''t5'', wordCount = 1 \<rparr>,
        \<lparr> v_id = 4, v_content = ''v4'', label = ''Version 4'', timestamp = ''t4'', wordCount = 1 \<rparr>,
        \<lparr> v_id = 3, v_content = ''v3'', label = ''Version 3'', timestamp = ''t3'', wordCount = 1 \<rparr>,
        \<lparr> v_id = 2, v_content = ''v2'', label = ''Version 2'', timestamp = ''t2'', wordCount = 1 \<rparr>,
        \<lparr> v_id = 1, v_content = ''v1'', label = ''Version 1'', timestamp = ''t1'', wordCount = 1 \<rparr>]]) = MAX_VERSIONS
   \<and> (\<exists>v. fst (saveVersion True 6 ''t6'' [VERSION_KEY \<mapsto> VersionList [\<lparr> v_id = 5, v_content = ''v5'', label = ''Version 5'', timestamp = ''t5'', wordCount = 1 \<rparr>,
        \<lparr> v_id = 4, v_content = ''v4'', label = ''Version 4'', timestamp = ''t4'', wordCount = 1 \<rparr>,
        \<lparr> v_id = 3, v_content = ''v3'', label = ''Version 3'', timestamp = ''t3'', wordCount = 1 \<rparr>,
        \<lparr> v_id = 2, v_content = ''v2'', label = ''Version 2'', timestamp = ''t2'', wordCount = 1 \<rparr>,
        \<lparr> v_id = 1, v_content = ''v1'', label = ''Version 1'', timestamp = ''t1'', wordCount = 1 \<rparr>]] ''v6'' []) = Some v
          \<and> v_content v = ''v6''
          \<and> getVersions (snd (saveVersion True 6 ''t6'' [VERSION_KEY \<mapsto> VersionList [\<lparr> v_id = 5, v_content = ''v5'', label = ''Version 5'', timestamp = ''t5'', wordCount = 1 \<rparr>,
        \<lparr> v_id = 4, v_content = ''v4'', label = ''Version 4'', timestamp = ''t4'', wordCount = 1 \<rparr>,
        \<lparr> v_id = 3, v_content = ''v3'', label = ''Version 3'', timestamp = ''t3'', wordCount = 1 \<rparr>,
        \<lparr> v_id = 2, v_content = ''v2'', label = ''Version 2'', timestamp = ''t2'', wordCount = 1 \<rparr>,
        \<lparr> v_id = 1, v_content = ''v1'', label = ''Version 1'', timestamp = ''t1'', wordCount = 1 \<rparr>]] ''v6'' []))
              = [v, \<lparr> v_id = 5, v_content = ''v5'', label = ''Version 5'', timestamp = ''t5'', wordCount = 1 \<rparr>, \<lparr> v_id = 4, v_content = ''v4'', label = ''Version 4'', timestamp = ''t4'', wordCount = 1 \<rparr>, \<lparr> v_id = 3, v_content = ''v3'', label = ''Version 3'', timestamp = ''t3'', wordCount = 1 \<rparr>, \<lparr> v_id = 2, v_content = ''v2'', label = ''Version 2'', timestamp = ''t2'', wordCount = 1 \<rparr>])"
proof -
  have g: "getVersions [VERSION_KEY \<mapsto> VersionList [\<lparr> v_id = 5, v_content = ''v5'', label = ''Version 5'', timestamp = ''t5'', wordCount = 1 \<rparr>,
        \<lparr> v_id = 4, v_content = ''v4'', label = ''Version 4'', timestamp = ''t4'', wordCount = 1 \<rparr>,
        \<lparr> v_id = 3, v_content = ''v3'', label = ''Version 3'', timestamp = ''t3'', wordCount = 1 \<rparr>,
        \<lparr> v_id = 2, v_content = ''v2'', label = ''Version 2'', timestamp = ''t2'', wordCount = 1 \<rparr>,
        \<lparr> v_id = 1, v_content = ''v1'', label = ''Version 1'', timestamp = ''t1'', wordCount = 1 \<rparr>]]
           = [\<lparr> v_id = 5, v_content = ''v5'', label = ''Version 5'', timestamp = ''t5'', wordCount = 1 \<rparr>,
        \<lparr> v_id = 4, v_content = ''v4'', label = ''Version 4'', timestamp = ''t4'', wordCount = 1 \<rparr>,
        \<lparr> v_id = 3, v_content = ''v3'', label = ''Version 3'', timestamp = ''t3'', wordCount = 1 \<rparr>,
        \<lparr> v_id = 2, v_content = ''v2'', label = ''Version 2'', timestamp = ''t2'', wordCount = 1 \<rparr>,
        \<lparr> v_id = 1, v_content = ''v1'', label = ''Version 1'', timestamp = ''t1'', wordCount = 1 \<rparr>]"
    by (simp add: getVersions_def)
  from C7_ledger_bound[of "[VERSION_KEY \<mapsto> VersionList [\<lparr> v_id = 5, v_content = ''v5'', label = ''Version 5'', timestamp = ''t5'', wordCount = 1 \<rparr>,
        \<lparr> v_id = 4, v_content = ''v4'', label = ''Version 4'', timestamp = ''t4'', wordCount = 1 \<rparr>,
        \<lparr> v_id = 3, v_content = ''v3'', label = ''Version 3'', timestamp = ''t3'', wordCount = 1 \<rparr>,
        \<lparr> v_id = 2, v_content = ''v2'', label = ''Version 2'', timestamp = ''t2'', wordCount = 1 \<rparr>,
        \<lparr> v_id = 1, v_content = ''v1'', label = ''Version 1'', timestamp = ''t1'', wordCount = 1 \<rparr>]]" True 6 "''t6''" "''v6''" "[]"]
  show ?thesis unfolding g by (auto simp: MAX_VERSIONS_def)
qed

section \<open>Clearing the stored data\<close>

text \<open>
  C10: \<^verbatim>\<open>clearAll\<close> succeeds, removes the entries under the content, chat-history,
  preferences and last-saved keys and leaves every other entry as it was; the version
  ledger, under its own key, is the same before and after.
\<close>

theorem C10_clearAll_frame:
  "fst (clearAll ls) = True
   \<and> snd (clearAll ls) =
       (\<lambda>key. if key = CONTENT \<or> key = CHAT_HISTORY \<or> key = PREFERENCES \<or> key = LAST_SAVED
              then None else ls key)
   \<and> snd (clearAll ls) VERSION_KEY = ls VERSION_KEY
   \<and> getVersions (snd (clearAll ls)) = getVersions ls"
  by (auto simp: clearAll_def STORAGE_KEYS_def removeItem_def getVersions_def fun_eq_iff
        CONTENT_def CHAT_HISTORY_def PREFERENCES_def LAST_SAVED_def VERSION_KEY_def)

section \<open>Searching and cutting texts\<close>

lemma indexOf_from_cases:
  "indexOf_from pat s i = -1 \<and> (\<forall>k \<le> length s. take (length pat) (drop k s) \<noteq> pat)
   \<or> (\<exists>k \<le> length s. indexOf_from pat s i = int (i + k) \<and> take (length pat) (drop k s) = pat
         \<and> (\<forall>j < k. take (length pat) (drop j s) \<noteq> pat))"
proof (induction s arbitrary: i)
  case Nil
  then show ?case by auto
next
  case (Cons c cs)
  show ?case
  proof (cases "take (length pat) (c # cs) = pat")
    case True
    then have "indexOf_from pat (c # cs) i = int (i + 0) \<and> take (length pat) (drop 0 (c # cs)) = pat"
      by simp
    then show ?thesis by blast
  next
    case False
    then have eq: "indexOf_from pat (c # cs) i = indexOf_from pat cs (Suc i)" by simp
    from Cons.IH[of "Suc i"] show ?thesis
    proof
      assume a: "indexOf_from pat cs (Suc i) = - 1 \<and> (\<forall>k\<le>length cs. take (length pat) (drop k cs) \<noteq> pat)"
      have "\<forall>k \<le> length (c # cs). take (length pat) (drop k (c # cs)) \<noteq> pat"
      proof (intro allI impI)
        fix k assume "k \<le> length (c # cs)"
        then show "take (length pat) (drop k (c # cs)) \<noteq> pat"
          using a False by (cases k) auto
      qed
      with a eq show ?thesis by simp
    next
      assume "\<exists>k\<le>length cs. indexOf_from pat cs (Suc i) = int (Suc i + k) \<and>
         take (length pat) (drop k cs) = pat \<and> (\<forall>j<k. take (length pat) (drop j cs) \<noteq> pat)"
      then obtain k where k: "k \<le> length cs" "indexOf_from pat cs (Suc i) = int (Suc i + k)"
        "take (length pat) (drop k cs) = pat" "\<forall>j<k. take (length pat) (drop j cs) \<noteq> pat"
        by blast
      have "\<forall>j < Suc k. take (length pat) (drop j (c # cs)) \<noteq> pat"
      proof (intro allI impI)
        fix j assume "j < Suc k"
        then show "take (length pat) (drop j (c # cs)) \<noteq> pat"
          using k(4) False by (cases j) auto
      qed
      with k eq have "Suc k \<le> length (c # cs) \<and> indexOf_from pat (c # cs) i = int (i + Suc k)
          \<and> take (length pat) (drop (Suc k) (c # cs)) = pat
          \<and> (\<forall>j < Suc k. take (length pat) (drop j (c # cs)) \<noteq> pat)"
        by simp
      then show ?thesis by blast
    qed
  qed
qed

lemma indexOf_missing:
  "indexOf doc pat = -1 \<longleftrightarrow> \<not> occurs doc pat"
  using indexOf_from_cases[of pat doc 0]
  by (auto simp: indexOf_def occurs_def occurs_at_def list_ex_iff)

lemma indexOf_found:
  assumes "indexOf doc pat \<noteq> -1"
  shows "0 \<le> indexOf doc pat" and "occurs_at doc pat (nat (indexOf doc pat))"
    and "\<forall>j < nat (indexOf doc pat). \<not> occurs_at doc pat j"
  using indexOf_from_cases[of pat doc 0] assms
  by (auto simp: indexOf_def occurs_at_def)

lemma occurs_at_fits:
  assumes "occurs_at doc pat k"
  shows "k + length pat \<le> length doc"
proof -
  from assms have k: "k \<le> length doc" and t: "take (length pat) (drop k doc) = pat"
    by (simp_all add: occurs_at_def)
  from t have "length (take (length pat) (drop k doc)) = length pat" by (rule arg_cong)
  then have "length pat \<le> length doc - k" by simp
  with k show ?thesis by simp
qed

lemma substring_occurs_at:
  assumes "occurs_at doc pat k"
  shows "substring doc (int k) (int k + int (length pat)) = pat"
proof -
  from assms have t: "take (length pat) (drop k doc) = pat" by (simp add: occurs_at_def)
  from occurs_at_fits[OF assms] have "substring doc (int k) (int k + int (length pat))
      = take (length pat) (drop k doc)"
    by (simp add: substring_def Let_def min_def max_def)
  with t show ?thesis by simp
qed

lemma indexOf_char: "indexOf_from [c] s i = -1 \<longleftrightarrow> c \<notin> set s"
  by (induction s arbitrary: i) auto

lemma lastIndexOf_char_nonneg: "0 \<le> found \<Longrightarrow> 0 \<le> lastIndexOf_from [c] s i found"
  by (induction s arbitrary: i found) auto

lemma lastIndexOf_char: "lastIndexOf_from [c] s i (-1) = -1 \<longleftrightarrow> c \<notin> set s"
proof (induction s arbitrary: i)
  case Nil
  then show ?case by simp
next
  case (Cons x xs)
  show ?case
  proof (cases "x = c")
    case True
    have "0 \<le> lastIndexOf_from [c] xs (Suc i) (int i)" by (rule lastIndexOf_char_nonneg) simp
    with True show ?thesis by simp
  next
    case False
    with Cons show ?thesis by simp
  qed
qed

lemma preview_bounded: "length (preview t) \<le> 300"
  by (simp add: preview_def newlines_to_spaces_def substring_def Let_def)

lemma extract_no_brackets:
  "CHR ''['' \<notin> set response \<or> CHR '']'' \<notin> set response \<Longrightarrow>
   extract_suggestions JSON_parse doc response =
     Inl (''No JSON array found. Response was: '' @ quote @ preview response @ ''...'' @ quote)"
  by (auto simp: extract_suggestions_def Let_def indexOf_def lastIndexOf_def indexOf_char lastIndexOf_char)

section \<open>Analysis\<close>

lemma anchors_from_Nil: "anchors_from doc n [] = []"
  by (simp add: anchors_from_def)

lemma anchors_from_Cons:
  "anchors_from doc n (p # ps) =
     (if occurs doc (original p)
      then \<lparr> original = original p, suggestion = suggestion p, reason = reason p, mode = mode p,
             sid = n + 1, start = indexOf doc (original p),
             end_at = indexOf doc (original p) + int (length (original p)) \<rparr> # anchors_from doc (Suc n) ps
      else anchors_from doc (Suc n) ps)"
  using indexOf_missing[of doc "original p"]
  by (auto simp: anchors_from_def anchor_def Let_def)

lemma processSuggestions_anchors: "processSuggestions doc ps = anchors_from doc 0 ps"
  by (simp add: processSuggestions_def anchors_from_def)

lemma anchors_order:
  "map proposal_of (anchors_from doc n ps) = filter (\<lambda>p. occurs doc (original p)) ps"
  by (induction ps arbitrary: n) (auto simp: anchors_from_Nil anchors_from_Cons proposal_of_def)

lemma anchors_each:
  "s \<in> set (anchors_from doc n ps) \<Longrightarrow>
     n < sid s \<and> sid s \<le> n + length ps \<and> ps ! (sid s - 1 - n) = proposal_of s
     \<and> occurs doc (original s) \<and> start s = indexOf doc (original s)
     \<and> end_at s = start s + int (length (original s))"
proof (induction ps arbitrary: n)
  case Nil
  then show ?case by (simp add: anchors_from_Nil)
next
  case (Cons p ps)
  show ?case
  proof (cases "s \<in> set (anchors_from doc (Suc n) ps)")
    case True
    from Cons.IH[OF True] have ih: "Suc n < sid s" "sid s \<le> Suc n + length ps"
      "ps ! (sid s - 1 - Suc n) = proposal_of s" "occurs doc (original s)"
      "start s = indexOf doc (original s)" "end_at s = start s + int (length (original s))"
      by auto
    from ih(1) have "sid s - 1 - n = Suc (sid s - 1 - Suc n)" by simp
    with ih show ?thesis by simp
  next
    case False
    with Cons.prems have "occurs doc (original p)" and
      "s = \<lparr> original = original p, suggestion = suggestion p, reason = reason p, mode = mode p,
             sid = n + 1, start = indexOf doc (original p),
             end_at = indexOf doc (original p) + int (length (original p)) \<rparr>"
      by (auto simp: anchors_from_Cons split: if_splits)
    then show ?thesis by (simp add: proposal_of_def)
  qed
qed

lemma anchors_ids_increasing: "sorted_wrt (<) (map sid (anchors_from doc n ps))"
proof (induction ps arbitrary: n)
  case Nil
  then show ?case by (simp add: anchors_from_Nil)
next
  case (Cons p ps)
  have "\<forall>s \<in> set (anchors_from doc (Suc n) ps). n + 1 < sid s"
    using anchors_each[of _ doc "Suc n" ps] by auto
  with Cons.IH[of "Suc n"] show ?case by (auto simp: anchors_from_Cons)
qed

lemma anchors_ids_all:
  "\<forall>p \<in> set ps. occurs doc (original p) \<Longrightarrow>
     map sid (anchors_from doc n ps) = [n + 1 ..< n + 1 + length ps]"
proof (induction ps arbitrary: n)
  case Nil
  then show ?case by (simp add: anchors_from_Nil)
next
  case (Cons p ps)
  then have ih: "map sid (anchors_from doc (Suc n) ps) = [Suc n + 1 ..< Suc n + 1 + length ps]"
    by simp
  have "[n + 1 ..< n + 1 + length (p # ps)] = (n + 1) # [Suc n + 1 ..< Suc n + 1 + length ps]"
    by (subst upt_rec) simp
  with Cons.prems ih show ?case by (simp add: anchors_from_Cons del: upt_Suc)
qed

lemma anchors_ids_prefix:
  "map sid (anchors_from doc n ps) = [n + 1 ..< n + 1 + length (anchors_from doc n ps)]
     \<longleftrightarrow> (\<forall>p \<in> set (take (length (anchors_from doc n ps)) ps). occurs doc (original p))"
proof (induction ps arbitrary: n)
  case Nil
  then show ?case by (simp add: anchors_from_Nil)
next
  case (Cons p ps)
  let ?rest = "anchors_from doc (Suc n) ps"
  show ?case
  proof (cases "occurs doc (original p)")
    case True
    have u: "[Suc n ..< Suc (Suc (n + length ?rest))]
        = Suc n # [Suc (Suc n) ..< Suc (Suc (n + length ?rest))]"
      by (rule upt_conv_Cons) simp
    from True Cons.IH[of "Suc n"] show ?thesis
      by (simp add: anchors_from_Cons u del: upt_Suc)
  next
    case False
    then have eq: "anchors_from doc n (p # ps) = ?rest" by (simp add: anchors_from_Cons)
    show ?thesis
    proof (cases ?rest)
      case Nil
      with eq show ?thesis by simp
    next
      case (Cons a as)
      then have "a \<in> set ?rest" by simp
      from anchors_each[OF this] have "Suc n < sid a" by simp
      moreover have "[n + 1 ..< n + 1 + length (a # as)] = (n + 1) # [Suc n + 1 ..< Suc n + 1 + length as]"
        by (subst upt_rec) simp
      ultimately have "map sid (a # as) \<noteq> [n + 1 ..< n + 1 + length (a # as)]" by simp
      moreover have "p \<in> set (take (length (a # as)) (p # ps))" by simp
      ultimately show ?thesis using False eq Cons by metis
    qed
  qed
qed

lemma analyze_success:
  assumes "trim (content st) \<noteq> []" and "content st \<noteq> SAMPLE_TEXT"
    and "callClaudeAPI answer = Inr response"
    and "CHR ''['' \<in> set response" and "CHR '']'' \<in> set response"
    and "JSON_parse (jsonString_of response (indexOf response ''['') (lastIndexOf response '']'')) = Inr parsed"
  shows "analyzeContent JSON_parse answer st =
           analysis_done (st\<lparr> isAnalyzing := True, error := None, suggestions := [] \<rparr>)
             (processSuggestions (content st) parsed)"
proof -
  from assms(4,5) have "indexOf response ''['' \<noteq> -1" "lastIndexOf response '']'' \<noteq> -1"
    by (simp_all add: indexOf_def lastIndexOf_def indexOf_char lastIndexOf_char)
  with assms(6) have "extract_suggestions JSON_parse (content st) response
      = Inr (processSuggestions (content st) parsed)"
    by (simp add: extract_suggestions_def Let_def)
  with assms(1-3) show ?thesis by (simp add: analyzeContent_def Let_def)
qed

lemma analyze_no_array:
  assumes "trim (content st) \<noteq> []" and "content st \<noteq> SAMPLE_TEXT"
    and "callClaudeAPI answer = Inr response"
    and "CHR ''['' \<notin> set response \<or> CHR '']'' \<notin> set response"
  shows "analyzeContent JSON_parse answer st =
           analysis_failed (st\<lparr> isAnalyzing := True, error := None, suggestions := [] \<rparr>)
             (''No JSON array found. Response was: '' @ quote @ preview response @ ''...'' @ quote)"
  using assms(1-3) extract_no_brackets[OF assms(4), of JSON_parse "content st"]
  by (simp add: analyzeContent_def Let_def)

text \<open>
  C2, as stated, fails: the analysis empties the suggestion set before it sends its request,
  so after a response without an array the suggestions held before are gone.
\<close>

theorem C2_prior_suggestions_counterexample:
  "CHR ''['' \<notin> set ''Nothing to improve.''
   \<and> suggestions (editor_with ''abc def'' [\<lparr> original = ''abc'', suggestion = ''x'', reason = ''r'', mode = ''clarity'', sid = 1, start = 0, end_at = 3 \<rparr>])
       = [\<lparr> original = ''abc'', suggestion = ''x'', reason = ''r'', mode = ''clarity'', sid = 1, start = 0, end_at = 3 \<rparr>]
   \<and> suggestions (analyzeContent (reads_only []) (Answer [''Nothing to improve.''])
         (editor_with ''abc def'' [\<lparr> original = ''abc'', suggestion = ''x'', reason = ''r'', mode = ''clarity'', sid = 1, start = 0, end_at = 3 \<rparr>])) = []"
  by code_simp

text \<open>
  C2, amended: when the analysis runs (the document is not blank and is not the sample text)
  and the response has no opening bracket or no closing bracket, the analysis fails with
  the error \<^verbatim>\<open>No JSON array found\<close>, which carries a preview of at most 300 characters of the
  response; the document, the store and the versions are as before, and the suggestion set
  is empty: the suggestions held before are cleared, not kept.
\<close>

theorem C2_no_array:
  assumes "trim (content st) \<noteq> []" and "content st \<noteq> SAMPLE_TEXT"
    and "callClaudeAPI answer = Inr response"
    and "CHR ''['' \<notin> set response \<or> CHR '']'' \<notin> set response"
  shows "error (analyzeContent JSON_parse answer st)
           = Some (''Analysis failed: '' @ ''No JSON array found. Response was: '' @ quote @
                   preview response @ ''...'' @ quote)
         \<and> length (preview response) \<le> 300
         \<and> content (analyzeContent JSON_parse answer st) = content st
         \<and> store (analyzeContent JSON_parse answer st) = store st
         \<and> versions (analyzeContent JSON_parse answer st) = versions st
         \<and> suggestions (analyzeContent JSON_parse answer st) = []"
  using analyze_no_array[where JSON_parse = JSON_parse, OF assms] preview_bounded[of response]
  by (simp add: analysis_failed_def)

theorem C2_no_array_witness:
  "trim (content (editor_with ''abc def'' [])) \<noteq> []
   \<and> content (editor_with ''abc def'' []) \<noteq> SAMPLE_TEXT
   \<and> callClaudeAPI (Answer [''See ] and'', ''more'']) = Inr (''See ] and'' @ [NL] @ ''more'')
   \<and> CHR ''['' \<notin> set (''See ] and'' @ [NL] @ ''more'')
   \<and> error (analyzeContent (reads_only []) (Answer [''See ] and'', ''more'']) (editor_with ''abc def'' []))
       = Some (''Analysis failed: No JSON array found. Response was: '' @ quote @ ''See ] and more'' @ ''...'' @ quote)
   \<and> content (analyzeContent (reads_only []) (Answer [''See ] and'', ''more'']) (editor_with ''abc def'' []))
       = ''abc def''
   \<and> suggestions (analyzeContent (reads_only []) (Answer [''See ] and'', ''more'']) (editor_with ''abc def'' []))
       = []"
proof -
  have h1: "trim (content (editor_with ''abc def'' [])) \<noteq> []" by code_simp
  have h2: "content (editor_with ''abc def'' []) \<noteq> SAMPLE_TEXT" by code_simp
  have h3: "callClaudeAPI (Answer [''See ] and'', ''more'']) = Inr (''See ] and'' @ [NL] @ ''more'')"
    by code_simp
  have h4: "CHR ''['' \<notin> set (''See ] and'' @ [NL] @ ''more'')" by code_simp
  have h4': "CHR ''['' \<notin> set (''See ] and'' @ [NL] @ ''more'') \<or> CHR '']'' \<notin> set (''See ] and'' @ [NL] @ ''more'')"
    using h4 by (rule disjI1)
  have p: "preview (''See ] and'' @ [NL] @ ''more'') = ''See ] and more''" by code_simp
  have c: "content (editor_with ''abc def'' []) = ''abc def''" by code_simp
  from C2_no_array[where JSON_parse = "reads_only []", OF h1 h2 h3 h4'] h1 h2 h3 h4
  show ?thesis unfolding p c by simp
qed

text \<open>
  C4, as stated, fails: the ids are given before the elements that cannot be anchored are
  dropped, so after a dropped element the \<open>n\<close>-th returned suggestion does not have id \<open>n\<close>.
\<close>

theorem C4_ids_counterexample:
  "map sid (suggestions (analyzeContent
       (reads_only [proposing ''zzz'' ''y'', proposing ''abc'' ''x''])
       (Answer [json_array [proposing ''zzz'' ''y'', proposing ''abc'' ''x'']])
       (editor_with ''abc def'' []))) = [2]
   \<and> error (analyzeContent
       (reads_only [proposing ''zzz'' ''y'', proposing ''abc'' ''x''])
       (Answer [json_array [proposing ''zzz'' ''y'', proposing ''abc'' ''x'']])
       (editor_with ''abc def'' [])) = None"
  by code_simp

text \<open>
  C4, amended: on every successful analysis the returned suggestions are the elements of the
  model's array whose original text occurs in the document, in the order of the array; the
  suggestion made from the \<open>n\<close>-th element of the array has id \<open>n\<close>, so the ids increase
  strictly; they are 1, 2, 3, ... exactly when no dropped element stands before a returned
  one in the array (the returned suggestions come from the first elements of the array), in
  particular when no element is dropped; each suggestion is anchored with
  start = indexOf(original) and end = start + len(original).
\<close>

theorem C4_ids_amended:
  assumes "trim (content st) \<noteq> []" and "content st \<noteq> SAMPLE_TEXT"
    and "callClaudeAPI answer = Inr response"
    and "CHR ''['' \<in> set response" and "CHR '']'' \<in> set response"
    and "JSON_parse (jsonString_of response (indexOf response ''['') (lastIndexOf response '']'')) = Inr parsed"
  shows "map proposal_of (suggestions (analyzeContent JSON_parse answer st))
           = filter (\<lambda>p. occurs (content st) (original p)) parsed
         \<and> sorted_wrt (<) (map sid (suggestions (analyzeContent JSON_parse answer st)))
         \<and> (\<forall>s \<in> set (suggestions (analyzeContent JSON_parse answer st)).
               1 \<le> sid s \<and> sid s \<le> length parsed \<and> parsed ! (sid s - 1) = proposal_of s
               \<and> start s = indexOf (content st) (original s)
               \<and> end_at s = start s + int (length (original s)))
         \<and> ((\<forall>p \<in> set parsed. occurs (content st) (original p)) \<longrightarrow>
               map sid (suggestions (analyzeContent JSON_parse answer st)) = [1 ..< Suc (length parsed)])
         \<and> (map sid (suggestions (analyzeContent JSON_parse answer st))
               = [1 ..< Suc (length (suggestions (analyzeContent JSON_parse answer st)))]
             \<longleftrightarrow> (\<forall>p \<in> set (take (length (suggestions (analyzeContent JSON_parse answer st))) parsed).
                    occurs (content st) (original p)))"
proof -
  have out: "suggestions (analyzeContent JSON_parse answer st) = anchors_from (content st) 0 parsed"
    using analyze_success[where JSON_parse = JSON_parse, OF assms] by (simp add: analysis_done_def processSuggestions_anchors)
  have each: "\<forall>s \<in> set (anchors_from (content st) 0 parsed).
               1 \<le> sid s \<and> sid s \<le> length parsed \<and> parsed ! (sid s - 1) = proposal_of s
               \<and> start s = indexOf (content st) (original s)
               \<and> end_at s = start s + int (length (original s))"
  proof
    fix s assume "s \<in> set (anchors_from (content st) 0 parsed)"
    from anchors_each[OF this] show "1 \<le> sid s \<and> sid s \<le> length parsed \<and> parsed ! (sid s - 1) = proposal_of s
               \<and> start s = indexOf (content st) (original s)
               \<and> end_at s = start s + int (length (original s))"
      by simp
  qed
  have all: "(\<forall>p \<in> set parsed. occurs (content st) (original p)) \<longrightarrow>
       map sid (anchors_from (content st) 0 parsed) = [1 ..< Suc (length parsed)]"
    using anchors_ids_all[of parsed "content st" 0] by simp
  have pre: "map sid (anchors_from (content st) 0 parsed)
               = [1 ..< Suc (length (anchors_from (content st) 0 parsed))]
             \<longleftrightarrow> (\<forall>p \<in> set (take (length (anchors_from (content st) 0 parsed)) parsed).
                    occurs (content st) (original p))"
    using anchors_ids_prefix[of "content st" 0 parsed] by simp
  show ?thesis unfolding out
    using anchors_order[of "content st" 0 parsed] anchors_ids_increasing[of "content st" 0 parsed]
      each all pre
    by blast
qed

theorem C4_ids_amended_witness:
  "trim (content (editor_with ''abc def ghi'' [])) \<noteq> []
   \<and> content (editor_with ''abc def ghi'' []) \<noteq> SAMPLE_TEXT
   \<and> CHR ''['' \<in> set (json_array [proposing ''ghi'' ''1'', proposing ''zzz'' ''2'', proposing ''def'' ''3''])
   \<and> CHR '']'' \<in> set (json_array [proposing ''ghi'' ''1'', proposing ''zzz'' ''2'', proposing ''def'' ''3''])
   \<and> map proposal_of (suggestions (analyzeContent
         (reads_only [proposing ''ghi'' ''1'', proposing ''zzz'' ''2'', proposing ''def'' ''3''])
         (Answer [json_array [proposing ''ghi'' ''1'', proposing ''zzz'' ''2'', proposing ''def'' ''3'']])
         (editor_with ''abc def ghi'' [])))
       = [proposing ''ghi'' ''1'', proposing ''def'' ''3'']
   \<and> map sid (suggestions (analyzeContent
         (reads_only [proposing ''ghi'' ''1'', proposing ''zzz'' ''2'', proposing ''def'' ''3''])
         (Answer [json_array [proposing ''ghi'' ''1'', proposing ''zzz'' ''2'', proposing ''def'' ''3'']])
         (editor_with ''abc def ghi'' []))) = [1, 3]
   \<and> sorted_wrt (<) (map sid (suggestions (analyzeContent
         (reads_only [proposing ''ghi'' ''1'', proposing ''zzz'' ''2'', proposing ''def'' ''3''])
         (Answer [json_array [proposing ''ghi'' ''1'', proposing ''zzz'' ''2'', proposing ''def'' ''3'']])
         (editor_with ''abc def ghi'' []))))
   \<and> \<not> occurs ''abc def ghi'' (original (proposing ''zzz'' ''2''))
   \<and> map sid (suggestions (analyzeContent
         (reads_only [proposing ''ghi'' ''1'', proposing ''zzz'' ''2'', proposing ''def'' ''3''])
         (Answer [json_array [proposing ''ghi'' ''1'', proposing ''zzz'' ''2'', proposing ''def'' ''3'']])
         (editor_with ''abc def ghi'' [])))
       \<noteq> [1 ..< Suc (length (suggestions (analyzeContent
         (reads_only [proposing ''ghi'' ''1'', proposing ''zzz'' ''2'', proposing ''def'' ''3''])
         (Answer [json_array [proposing ''ghi'' ''1'', proposing ''zzz'' ''2'', proposing ''def'' ''3'']])
         (editor_with ''abc def ghi'' []))))]"
proof -
  let ?ps = "[proposing ''ghi'' ''1'', proposing ''zzz'' ''2'', proposing ''def'' ''3'']"
  let ?st = "editor_with ''abc def ghi'' []"
  have h1: "trim (content ?st) \<noteq> []" by code_simp
  have h2: "content ?st \<noteq> SAMPLE_TEXT" by code_simp
  have h3: "callClaudeAPI (Answer [json_array ?ps]) = Inr (json_array ?ps)" by simp
  have h4: "CHR ''['' \<in> set (json_array ?ps)" by code_simp
  have h5: "CHR '']'' \<in> set (json_array ?ps)" by code_simp
  have h6: "reads_only ?ps (jsonString_of (json_array ?ps) (indexOf (json_array ?ps) ''['')
              (lastIndexOf (json_array ?ps) '']'')) = Inr ?ps"
    by code_simp
  have f: "filter (\<lambda>p. occurs (content ?st) (original p)) ?ps = [proposing ''ghi'' ''1'', proposing ''def'' ''3'']"
    by code_simp
  have i: "map sid (suggestions (analyzeContent (reads_only ?ps) (Answer [json_array ?ps]) ?st)) = [1, 3]"
    by code_simp
  have l: "length (suggestions (analyzeContent (reads_only ?ps) (Answer [json_array ?ps]) ?st)) = 2"
    by code_simp
  have z: "\<not> occurs ''abc def ghi'' (original (proposing ''zzz'' ''2''))" by code_simp
  have c: "content ?st = ''abc def ghi''" by (simp add: editor_with_def)
  have t: "proposing ''zzz'' ''2'' \<in> set (take 2 ?ps)" by simp
  note inst = C4_ids_amended[where JSON_parse = "reads_only ?ps", OF h1 h2 h3 h4 h5 h6]
  from inst have iff: "map sid (suggestions (analyzeContent (reads_only ?ps) (Answer [json_array ?ps]) ?st))
               = [1 ..< Suc (length (suggestions (analyzeContent (reads_only ?ps) (Answer [json_array ?ps]) ?st)))]
             \<longleftrightarrow> (\<forall>p \<in> set (take (length (suggestions (analyzeContent (reads_only ?ps) (Answer [json_array ?ps]) ?st))) ?ps).
                    occurs (content ?st) (original p))"
    by blast
  have ne: "map sid (suggestions (analyzeContent (reads_only ?ps) (Answer [json_array ?ps]) ?st))
       \<noteq> [1 ..< Suc (length (suggestions (analyzeContent (reads_only ?ps) (Answer [json_array ?ps]) ?st)))]"
    using iff z t unfolding l c by blast
  from inst h1 h2 h4 h5 i z ne
  show ?thesis unfolding f by blast
qed

text \<open>
  C5: for every response whose bracketed part parses to an array of suggestion objects, the
  analysis succeeds without an error and leaves the document as it is; it returns exactly
  one suggestion for each element whose original text occurs in the document, hence at most
  as many as the array has elements, and an element whose text does not occur is dropped;
  every returned suggestion comes from an element of the array, its range of the document
  is its original text, and no occurrence of that text starts before it.
\<close>

theorem C5_anchoring:
  assumes "trim (content st) \<noteq> []" and "content st \<noteq> SAMPLE_TEXT"
    and "callClaudeAPI answer = Inr response"
    and "CHR ''['' \<in> set response" and "CHR '']'' \<in> set response"
    and "JSON_parse (jsonString_of response (indexOf response ''['') (lastIndexOf response '']'')) = Inr parsed"
  shows "error (analyzeContent JSON_parse answer st) = None
         \<and> content (analyzeContent JSON_parse answer st) = content st
         \<and> length (suggestions (analyzeContent JSON_parse answer st)) \<le> length parsed
         \<and> length (suggestions (analyzeContent JSON_parse answer st))
             = length (filter (\<lambda>p. occurs (content st) (original p)) parsed)
         \<and> (\<forall>s \<in> set (suggestions (analyzeContent JSON_parse answer st)).
               proposal_of s \<in> set parsed
               \<and> 0 \<le> start s
               \<and> substring (content st) (start s) (end_at s) = original s
               \<and> occurs_at (content st) (original s) (nat (start s))
               \<and> (\<forall>j < nat (start s). \<not> occurs_at (content st) (original s) j))"
proof -
  let ?st' = "analyzeContent JSON_parse answer st"
  have eq: "?st' = analysis_done (st\<lparr> isAnalyzing := True, error := None, suggestions := [] \<rparr>)
             (processSuggestions (content st) parsed)"
    by (rule analyze_success[where JSON_parse = JSON_parse, OF assms])
  then have out: "suggestions ?st' = anchors_from (content st) 0 parsed"
    and err: "error ?st' = None" and doc: "content ?st' = content st"
    by (simp_all add: analysis_done_def processSuggestions_anchors)
  have len: "length (anchors_from (content st) 0 parsed)
      = length (filter (\<lambda>p. occurs (content st) (original p)) parsed)"
    using anchors_order[of "content st" 0 parsed] by (metis length_map)
  have each: "proposal_of s \<in> set parsed
               \<and> 0 \<le> start s
               \<and> substring (content st) (start s) (end_at s) = original s
               \<and> occurs_at (content st) (original s) (nat (start s))
               \<and> (\<forall>j < nat (start s). \<not> occurs_at (content st) (original s) j)"
    if s: "s \<in> set (anchors_from (content st) 0 parsed)" for s
  proof -
    from anchors_each[OF s] have a: "0 < sid s" "sid s \<le> length parsed"
      "parsed ! (sid s - 1) = proposal_of s" "occurs (content st) (original s)"
      "start s = indexOf (content st) (original s)" "end_at s = start s + int (length (original s))"
      by auto
    from a(4) have nf: "indexOf (content st) (original s) \<noteq> -1" by (simp add: indexOf_missing)
    note f = indexOf_found[OF nf]
    from a(1,2,3) have "proposal_of s \<in> set parsed" by (metis Suc_pred' Suc_le_lessD nth_mem)
    moreover from substring_occurs_at[OF f(2)] f(1) a(5,6)
    have "substring (content st) (start s) (end_at s) = original s" by simp
    ultimately show ?thesis using f a(5) by simp
  qed
  show ?thesis unfolding out using err doc len each by (simp add: out)
qed

theorem C5_anchoring_witness:
  "trim (content (editor_with ''A foo B foo C'' [])) \<noteq> []
   \<and> content (editor_with ''A foo B foo C'' []) \<noteq> SAMPLE_TEXT
   \<and> CHR ''['' \<in> set (json_array [proposing ''foo'' ''bar''])
   \<and> CHR '']'' \<in> set (json_array [proposing ''foo'' ''bar''])
   \<and> suggestions (analyzeContent (reads_only [proposing ''foo'' ''bar''])
         (Answer [json_array [proposing ''foo'' ''bar'']]) (editor_with ''A foo B foo C'' []))
       = [\<lparr> original = ''foo'', suggestion = ''bar'', reason = ''x'', mode = ''clarity'',
            sid = 1, start = 2, end_at = 5 \<rparr>]
   \<and> error (analyzeContent (reads_only [proposing ''foo'' ''bar''])
         (Answer [json_array [proposing ''foo'' ''bar'']]) (editor_with ''A foo B foo C'' [])) = None
   \<and> length (suggestions (analyzeContent (reads_only [proposing ''foo'' ''bar''])
         (Answer [json_array [proposing ''foo'' ''bar'']]) (editor_with ''A foo B foo C'' []))) \<le> 1
   \<and> content (acceptSuggestion
         \<lparr> original = ''foo'', suggestion = ''bar'', reason = ''x'', mode = ''clarity'',
           sid = 1, start = 2, end_at = 5 \<rparr>
         (editor_with ''A foo B foo C'' [])) = ''A bar B foo C''"
proof -
  let ?ps = "[proposing ''foo'' ''bar'']"
  let ?st = "editor_with ''A foo B foo C'' []"
  have h1: "trim (content ?st) \<noteq> []" by code_simp
  have h2: "content ?st \<noteq> SAMPLE_TEXT" by code_simp
  have h3: "callClaudeAPI (Answer [json_array ?ps]) = Inr (json_array ?ps)" by simp
  have h4: "CHR ''['' \<in> set (json_array ?ps)" by code_simp
  have h5: "CHR '']'' \<in> set (json_array ?ps)" by code_simp
  have h6: "reads_only ?ps (jsonString_of (json_array ?ps) (indexOf (json_array ?ps) ''['')
              (lastIndexOf (json_array ?ps) '']'')) = Inr ?ps"
    by code_simp
  have e: "suggestions (analyzeContent (reads_only ?ps) (Answer [json_array ?ps]) ?st)
       = [\<lparr> original = ''foo'', suggestion = ''bar'', reason = ''x'', mode = ''clarity'',
            sid = 1, start = 2, end_at = 5 \<rparr>]"
    by code_simp
  have a: "content (acceptSuggestion
         \<lparr> original = ''foo'', suggestion = ''bar'', reason = ''x'', mode = ''clarity'',
           sid = 1, start = 2, end_at = 5 \<rparr> ?st) = ''A bar B foo C''"
    by code_simp
  from C5_anchoring[where JSON_parse = "reads_only ?ps", OF h1 h2 h3 h4 h5 h6] h1 h2 h4 h5 e a
  show ?thesis by simp
qed

section \<open>Transform mode\<close>

lemma process_chunks_first_failure:
  assumes "k < length chunks"
    and "failed (api (i + k) (section_request (chunks ! k)))"
    and "\<forall>j < k. \<not> failed (api (i + j) (section_request (chunks ! j)))"
  shows "snd (process_chunks api n i chunks acc)
           = Inl (failure_text ('' on section '' @ show_nat (i + k + 1)) (api (i + k) (section_request (chunks ! k))))
         \<and> length (fst (process_chunks api n i chunks acc)) = k + 1"
  using assms
proof (induction chunks arbitrary: i k acc)
  case Nil
  then show ?case by simp
next
  case (Cons chunk rest)
  show ?case
  proof (cases k)
    case 0
    with Cons.prems(2) show ?thesis
      by (cases "api i (section_request chunk)") (simp_all add: Let_def)
  next
    case (Suc k')
    with Cons.prems(3) have ok: "\<not> failed (api i (section_request chunk))" by fastforce
    then obtain texts where a: "api i (section_request chunk) = Answer texts"
      by (cases "api i (section_request chunk)") simp_all
    from Cons.prems Suc have 1: "k' < length rest"
      and 2: "failed (api (Suc i + k') (section_request (rest ! k')))"
      by simp_all
    have 3: "\<forall>j < k'. \<not> failed (api (Suc i + j) (section_request (rest ! j)))"
    proof (intro allI impI)
      fix j assume "j < k'"
      then have "Suc j < k" using Suc by simp
      with Cons.prems(3) have "\<not> failed (api (i + Suc j) (section_request ((chunk # rest) ! Suc j)))"
        by blast
      then show "\<not> failed (api (Suc i + j) (section_request (rest ! j)))" by simp
    qed
    from Cons.IH[OF 1 2 3, of "acc @ [trim (concat texts)]"] a Suc
    show ?thesis by (auto simp: Let_def split: prod.splits)
  qed
qed

lemma prepareDocument_first_failure:
  assumes "k < length (requests_of W doc)"
    and "failed (api k (requests_of W doc ! k))"
    and "\<forall>j < k. \<not> failed (api j (requests_of W doc ! j))"
  shows "snd (prepareDocument_with W api doc)
           = Inl (failure_text (place_of (length (requests_of W doc)) k) (api k (requests_of W doc ! k)))
         \<and> length (fst (prepareDocument_with W api doc)) = k + 1"
proof (cases "length (plan_chunks W doc) = 1")
  case True
  with assms(1) have k: "k = 0" by (simp add: requests_of_def)
  with assms(2) True show ?thesis
    by (cases "api 0 (single_request doc)")
       (simp_all add: prepareDocument_with_def requests_of_def place_of_def Let_def)
next
  case False
  let ?chunks = "plan_chunks W doc"
  from False assms have 1: "k < length ?chunks"
    and 2: "failed (api (0 + k) (section_request (?chunks ! k)))"
    and 3: "\<forall>j < k. \<not> failed (api (0 + j) (section_request (?chunks ! j)))"
    by (simp_all add: requests_of_def)
  from process_chunks_first_failure[where api = api and i = 0, OF 1 2 3, of "length ?chunks" "[]"] False 1
  show ?thesis
    by (auto simp: prepareDocument_with_def requests_of_def place_of_def Let_def split: prod.splits sum.splits)
qed

lemma handlePrepare_failure:
  assumes "trim (content st) \<noteq> []" and "content st \<noteq> SAMPLE_TEXT"
    and "snd (prepareDocument api (content st)) = Inl m"
  shows "content (handlePrepareDocument accepted now_ms now_iso api st) = content st
         \<and> suggestions (handlePrepareDocument accepted now_ms now_iso api st) = suggestions st
         \<and> error (handlePrepareDocument accepted now_ms now_iso api st)
             = Some (''Document preparation failed: '' @ m)"
  using assms by (simp add: handlePrepareDocument_def Let_def report_progress_def)

text \<open>The plan of a document of 1501 words in one paragraph and one more paragraph.\<close>

lemma split_run_clean_prefix:
  "\<forall>c \<in> set xs. \<not> P c \<Longrightarrow>
     split_run P k (xs @ ys) = (xs @ hd (split_run P k ys)) # tl (split_run P k ys)"
proof (induction xs)
  case Nil
  then show ?case using split_run_nonempty[of P k ys] by simp
next
  case (Cons x xs)
  then have ih: "split_run P k (xs @ ys) = (xs @ hd (split_run P k ys)) # tl (split_run P k ys)"
    and nx: "\<not> (P x \<and> k \<le> length (takeWhile P (x # xs @ ys)))"
    by simp_all
  from split_run_keep[OF nx ih] show ?case by simp
qed

lemma long_paragraph_Suc: "long_paragraph (Suc n) = ''a '' @ long_paragraph n"
  by (simp add: long_paragraph_def)

lemma long_paragraph_head: "\<exists>r. long_paragraph n = CHR ''a'' # r"
  by (cases n) (simp_all add: long_paragraph_def)

lemma long_paragraph_no_NL: "NL \<notin> set (long_paragraph n)"
  by (induction n) (simp_all add: long_paragraph_Suc, simp_all add: long_paragraph_def NL_def)

lemma long_paragraph_split:
  "length (split_run is_space 1 (long_paragraph n)) = Suc n"
proof (induction n)
  case 0
  show ?case by (simp add: long_paragraph_def is_space_def)
next
  case (Suc n)
  obtain r where r: "long_paragraph n = CHR ''a'' # r" using long_paragraph_head by blast
  have sp: "is_space CHR '' ''" and na: "\<not> is_space CHR ''a''" by (simp_all add: is_space_def)
  have 1: "split_run is_space 1 (CHR '' '' # long_paragraph n) = [] # split_run is_space 1 (long_paragraph n)"
    using split_run_sep[of is_space "CHR '' ''" 1 "long_paragraph n"] sp na r by simp
  have "split_run is_space 1 (CHR ''a'' # CHR '' '' # long_paragraph n)
      = [CHR ''a''] # split_run is_space 1 (long_paragraph n)"
    using split_run_keep[of is_space "CHR ''a''" 1 "CHR '' '' # long_paragraph n", OF _ 1] na by simp
  with Suc show ?case by (simp add: long_paragraph_Suc)
qed

lemma long_paragraph_trim: "trim (long_paragraph n) = long_paragraph n"
proof -
  obtain r where r: "long_paragraph n = CHR ''a'' # r" using long_paragraph_head by blast
  have na: "\<not> is_space CHR ''a''" by (simp add: is_space_def)
  have "rev (long_paragraph n) = CHR ''a'' # rev (concat (replicate n ''a ''))"
    by (simp add: long_paragraph_def)
  then have "dropWhile is_space (rev (long_paragraph n)) = rev (long_paragraph n)"
    using na by simp
  moreover have "dropWhile is_space (long_paragraph n) = long_paragraph n" using r na by simp
  ultimately show ?thesis by (simp add: trim_def)
qed

lemma long_paragraph_words: "paraWords (long_paragraph n) = Suc n"
  unfolding paraWords_def long_paragraph_trim by (rule long_paragraph_split)

lemma two_paragraphs:
  "paragraphs_of (long_paragraph n @ [NL, NL] @ ''b'') = [long_paragraph n, ''b'']"
proof -
  have "split_run (\<lambda>c. c = NL) 2 ([NL, NL] @ ''b'') = [[], ''b'']"
    by (simp add: NL_def)
  with split_run_clean_prefix[of "long_paragraph n" "\<lambda>c. c = NL" 2 "[NL, NL] @ ''b''"]
    long_paragraph_no_NL[of n]
  show ?thesis by (auto simp: paragraphs_of_def)
qed

lemma two_chunks:
  "plan_chunks MAX_WORDS_PER_CHUNK (long_paragraph 1500 @ [NL, NL] @ ''b'')
     = [long_paragraph 1500, ''b'']"
proof -
  have b: "paraWords ''b'' = 1" by (simp add: paraWords_def trim_def is_space_def)
  show ?thesis
    unfolding plan_chunks_def two_paragraphs
    by (simp add: long_paragraph_words b MAX_WORDS_PER_CHUNK_def)
qed

lemma long_doc_not_blank: "trim (long_paragraph n @ [NL, NL] @ ''b'') \<noteq> []"
proof -
  obtain r where r: "long_paragraph n = CHR ''a'' # r" using long_paragraph_head by blast
  have na: "\<not> is_space CHR ''a''" and nb: "\<not> is_space CHR ''b''" by (simp_all add: is_space_def)
  from r na have "dropWhile is_space (long_paragraph n @ [NL, NL] @ ''b'') = long_paragraph n @ [NL, NL] @ ''b''"
    by simp
  then show ?thesis using nb by (simp add: trim_def)
qed

lemma long_doc_not_sample: "long_paragraph n @ [NL, NL] @ ''b'' \<noteq> SAMPLE_TEXT"
proof -
  obtain r where r: "long_paragraph n = CHR ''a'' # r" using long_paragraph_head by blast
  then show ?thesis by (simp add: SAMPLE_TEXT_def)
qed

text \<open>
  C8: when the transform runs (the document is not blank and is not the sample text) and
  the answer to any of its requests is a failure, there is a first failed request \<open>k\<close>;
  \<^verbatim>\<open>prepareDocument\<close> raises the error of request \<open>k\<close> and returns no text, having sent the
  requests up to \<open>k\<close> only (one progress message each), and \<^verbatim>\<open>handlePrepareDocument\<close>
  reports that error and leaves the document and the suggestions exactly as they were.
\<close>

theorem C8_transform_failure:
  assumes "trim (content st) \<noteq> []" and "content st \<noteq> SAMPLE_TEXT"
    and "i < length (requests_of MAX_WORDS_PER_CHUNK (content st))"
    and "failed (api i (requests_of MAX_WORDS_PER_CHUNK (content st) ! i))"
  shows "\<exists>k \<le> i. failed (api k (requests_of MAX_WORDS_PER_CHUNK (content st) ! k))
           \<and> (\<forall>j < k. \<not> failed (api j (requests_of MAX_WORDS_PER_CHUNK (content st) ! j)))
           \<and> snd (prepareDocument api (content st))
               = Inl (failure_text (place_of (length (requests_of MAX_WORDS_PER_CHUNK (content st))) k)
                        (api k (requests_of MAX_WORDS_PER_CHUNK (content st) ! k)))
           \<and> length (fst (prepareDocument api (content st))) = k + 1
           \<and> content (handlePrepareDocument accepted now_ms now_iso api st) = content st
           \<and> suggestions (handlePrepareDocument accepted now_ms now_iso api st) = suggestions st
           \<and> error (handlePrepareDocument accepted now_ms now_iso api st)
               = Some (''Document preparation failed: '' @
                       failure_text (place_of (length (requests_of MAX_WORDS_PER_CHUNK (content st))) k)
                         (api k (requests_of MAX_WORDS_PER_CHUNK (content st) ! k)))"
proof -
  let ?reqs = "requests_of MAX_WORDS_PER_CHUNK (content st)"
  let ?P = "\<lambda>k. failed (api k (?reqs ! k))"
  from assms(4) have "\<exists>k. ?P k" by blast
  then obtain k where k: "?P k" "\<forall>j < k. \<not> ?P j"
    using exists_least_iff[of ?P] by blast
  from k(2) assms(4) have ki: "k \<le> i" by (meson not_less)
  with assms(3) have kl: "k < length ?reqs" by simp
  from prepareDocument_first_failure[where api = api, OF kl k(1) k(2)]
  have r: "snd (prepareDocument api (content st))
               = Inl (failure_text (place_of (length ?reqs) k) (api k (?reqs ! k)))"
    and l: "length (fst (prepareDocument api (content st))) = k + 1"
    by (simp_all add: prepareDocument_def)
  from handlePrepare_failure[OF assms(1,2) r, of accepted now_ms now_iso] k ki r l
  show ?thesis by blast
qed

theorem C8_transform_failure_witness:
  "trim (content (editor_with (long_paragraph 1500 @ [NL, NL] @ ''b'') [])) \<noteq> []
   \<and> content (editor_with (long_paragraph 1500 @ [NL, NL] @ ''b'') []) \<noteq> SAMPLE_TEXT
   \<and> requests_of MAX_WORDS_PER_CHUNK (content (editor_with (long_paragraph 1500 @ [NL, NL] @ ''b'') []))
       = [section_request (long_paragraph 1500), section_request ''b'']
   \<and> failed (second_fails 1 (section_request ''b''))
   \<and> \<not> failed (second_fails 0 (section_request (long_paragraph 1500)))
   \<and> prepareDocument second_fails (long_paragraph 1500 @ [NL, NL] @ ''b'')
       = ([''Processing section 1 of 2...'', ''Processing section 2 of 2...''],
          Inl ''API error: 503 on section 2'')
   \<and> content (handlePrepareDocument True 0 ''t'' second_fails
         (editor_with (long_paragraph 1500 @ [NL, NL] @ ''b'') []))
       = long_paragraph 1500 @ [NL, NL] @ ''b''
   \<and> error (handlePrepareDocument True 0 ''t'' second_fails
         (editor_with (long_paragraph 1500 @ [NL, NL] @ ''b'') []))
       = Some ''Document preparation failed: API error: 503 on section 2''"
proof -
  let ?doc = "long_paragraph 1500 @ [NL, NL] @ ''b''"
  let ?st = "editor_with ?doc []"
  have c: "content ?st = ?doc" by (simp add: editor_with_def)
  have h1: "trim (content ?st) \<noteq> []" unfolding c by (rule long_doc_not_blank)
  have h2: "content ?st \<noteq> SAMPLE_TEXT" unfolding c by (rule long_doc_not_sample)
  have reqs: "requests_of MAX_WORDS_PER_CHUNK (content ?st)
       = [section_request (long_paragraph 1500), section_request ''b'']"
    unfolding c requests_of_def two_chunks by simp
  have h3: "1 < length (requests_of MAX_WORDS_PER_CHUNK (content ?st))" unfolding reqs by simp
  have f1: "failed (second_fails 1 (section_request ''b''))" by (simp add: second_fails_def)
  have f0: "\<not> failed (second_fails 0 (section_request (long_paragraph 1500)))"
    by (simp add: second_fails_def)
  have h4: "failed (second_fails 1 (requests_of MAX_WORDS_PER_CHUNK (content ?st) ! 1))"
    unfolding reqs using f1 by simp
  have n2: "show_nat 2 = ''2''" and n1: "show_nat 1 = ''1''" and n503: "show_nat 503 = ''503''"
    and n2': "show_nat (Suc (Suc 0)) = ''2''" and n1': "show_nat (Suc 0) = ''1''"
    by (simp_all add: show_nat.simps)
  have run: "prepareDocument second_fails ?doc
       = ([''Processing section 1 of 2...'', ''Processing section 2 of 2...''],
          Inl ''API error: 503 on section 2'')"
    unfolding prepareDocument_def prepareDocument_with_def two_chunks
    by (simp add: Let_def second_fails_def error_or_def n1 n2 n1' n2' n503)
  from C8_transform_failure[where api = second_fails, OF h1 h2 h3 h4, of True 0 "''t''"]
  obtain k where k: "k \<le> 1" "failed (second_fails k (requests_of MAX_WORDS_PER_CHUNK (content ?st) ! k))"
    "content (handlePrepareDocument True 0 ''t'' second_fails ?st) = content ?st"
    "error (handlePrepareDocument True 0 ''t'' second_fails ?st)
       = Some (''Document preparation failed: '' @
               failure_text (place_of (length (requests_of MAX_WORDS_PER_CHUNK (content ?st))) k)
                 (second_fails k (requests_of MAX_WORDS_PER_CHUNK (content ?st) ! k)))"
    by blast
  from k(1,2) have k1: "k = 1" by (cases "k = 0") (simp_all add: second_fails_def)
  from k(4) have e: "error (handlePrepareDocument True 0 ''t'' second_fails ?st)
       = Some ''Document preparation failed: API error: 503 on section 2''"
    unfolding k1 reqs by (simp add: second_fails_def place_of_def error_or_def n2 n2' n503)
  from h1 h2 reqs f1 f0 run k(3) e c show ?thesis by simp
qed

section \<open>Accepting a suggestion\<close>

lemma substring_range:
  assumes "0 \<le> a" and "a \<le> b" and "b \<le> int (length s)"
  shows "substring s a b = take (nat (b - a)) (drop (nat a) s)"
  using assms by (simp add: substring_def Let_def min_def max_def)


lemma substring_append:
  assumes "0 \<le> a" and "a \<le> b" and "b \<le> c" and "c \<le> int (length s)"
  shows "substring s a b @ substring s b c = substring s a c"
proof -
  have "take (nat (b - a)) (drop (nat a) s) @ take (nat (c - b)) (drop (nat b) s)
      = take (nat (c - a)) (drop (nat a) s)"
  proof -
    have "nat b = nat a + nat (b - a)" using assms by simp
    then have "drop (nat b) s = drop (nat (b - a)) (drop (nat a) s)" by (simp add: add.commute)
    moreover have "nat (c - a) = nat (b - a) + nat (c - b)" using assms by simp
    ultimately show ?thesis by (simp add: take_add)
  qed
  with assms show ?thesis by (simp add: substring_range)
qed









section \<open>Rendering the highlights\<close>

lemma highlights_append: "highlights (xs @ ys) = highlights xs @ highlights ys"
  by (induction xs rule: highlights.induct) simp_all

lemma highlight_loop_highlights:
  "highlights (fst (highlight_loop doc lastIndex ss))
     = map (\<lambda>s. (s, substring doc (start s) (end_at s))) ss"
proof (induction ss arbitrary: lastIndex)
  case Nil
  then show ?case by simp
next
  case (Cons s rest)
  obtain spans final where hl: "highlight_loop doc (end_at s) rest = (spans, final)"
    by (cases "highlight_loop doc (end_at s) rest")
  with Cons.IH[of "end_at s"] show ?case by (simp add: highlights_append)
qed

lemma substring_empty: "substring s a a = []"
  by (simp add: substring_def Let_def)

lemma highlight_loop_laid_out:
  assumes "laid_out lastIndex ss (int (length doc))" and "0 \<le> lastIndex"
  shows "lastIndex \<le> snd (highlight_loop doc lastIndex ss)
         \<and> snd (highlight_loop doc lastIndex ss) \<le> int (length doc)
         \<and> concat (map span_text (fst (highlight_loop doc lastIndex ss)))
             = substring doc lastIndex (snd (highlight_loop doc lastIndex ss))"
  using assms
proof (induction ss arbitrary: lastIndex)
  case Nil
  then show ?case by (simp add: substring_empty)
next
  case (Cons s rest)
  from Cons.prems have a: "lastIndex \<le> start s" "start s \<le> end_at s"
    and r: "laid_out (end_at s) rest (int (length doc))"
    by simp_all
  from a Cons.prems(2) have e0: "0 \<le> end_at s" by simp
  obtain spans final where hl: "highlight_loop doc (end_at s) rest = (spans, final)"
    by (cases "highlight_loop doc (end_at s) rest")
  from Cons.IH[OF r e0] hl have ih: "end_at s \<le> final" "final \<le> int (length doc)"
    "concat (map span_text spans) = substring doc (end_at s) final"
    by simp_all
  have pre: "concat (map span_text (if start s > lastIndex
        then [Plain (substring doc lastIndex (start s))] else []))
      = substring doc lastIndex (start s)"
    using a(1) by (auto simp: substring_empty)
  have "concat (map span_text (fst (highlight_loop doc lastIndex (s # rest))))
      = substring doc lastIndex (start s) @ substring doc (start s) (end_at s) @ substring doc (end_at s) final"
    using hl ih(3) pre by simp
  also have "\<dots> = substring doc lastIndex final"
    using a ih Cons.prems(2) by (simp add: substring_append)
  finally show ?case using hl ih a by simp
qed

text \<open>
  C6, as stated, fails: the loop builds a highlight for every pending suggestion and never
  tests for an overlap. The analysis of \<^verbatim>\<open>abcdef\<close> with the proposals \<^verbatim>\<open>abcd\<close> and \<^verbatim>\<open>cdef\<close>
  gives two overlapping suggestions, and both are displayed.
\<close>

theorem C6_overlap_counterexample:
  "suggestions (analyzeContent (reads_only [proposing ''abcd'' ''1'', proposing ''cdef'' ''2''])
       (Answer [json_array [proposing ''abcd'' ''1'', proposing ''cdef'' ''2'']])
       (editor_with ''abcdef'' []))
     = [\<lparr> original = ''abcd'', suggestion = ''1'', reason = ''x'', mode = ''clarity'', sid = 1, start = 0, end_at = 4 \<rparr>,
        \<lparr> original = ''cdef'', suggestion = ''2'', reason = ''x'', mode = ''clarity'', sid = 2, start = 2, end_at = 6 \<rparr>]
   \<and> renderContentWithHighlights (editor_with ''abcdef''
       [\<lparr> original = ''abcd'', suggestion = ''1'', reason = ''x'', mode = ''clarity'', sid = 1, start = 0, end_at = 4 \<rparr>,
        \<lparr> original = ''cdef'', suggestion = ''2'', reason = ''x'', mode = ''clarity'', sid = 2, start = 2, end_at = 6 \<rparr>])
     = Spans [Highlight \<lparr> original = ''abcd'', suggestion = ''1'', reason = ''x'', mode = ''clarity'', sid = 1, start = 0, end_at = 4 \<rparr> ''abcd'',
              Highlight \<lparr> original = ''cdef'', suggestion = ''2'', reason = ''x'', mode = ''clarity'', sid = 2, start = 2, end_at = 6 \<rparr> ''cdef'']"
  by code_simp

text \<open>
  C6, amended: with suggestions pending, rendering sorts them by start offset ascending and
  displays every one of them as a highlight, in that order, each showing the text of the
  document between its start and its end; overlapping suggestions are all displayed. The
  display segments do not overlap, and their texts in order make up the document, when the
  sorted suggestions are laid out in the document: each starts at or after the end of the one
  before it, and none ends before it starts.
\<close>

theorem C6_render_amended:
  assumes "suggestions st \<noteq> []"
  shows "\<exists>spans. renderContentWithHighlights st = Spans spans
           \<and> map fst (highlights spans) = sort_key start (suggestions st)
           \<and> sorted (map start (map fst (highlights spans)))
           \<and> (\<forall>s t. (s, t) \<in> set (highlights spans) \<longrightarrow> t = substring (content st) (start s) (end_at s))
           \<and> (laid_out 0 (sort_key start (suggestions st)) (int (length (content st)))
                \<longrightarrow> concat (map span_text spans) = content st)"
proof -
  let ?doc = "content st" and ?ss = "sort_key start (suggestions st)"
  obtain result lastIndex where hl: "highlight_loop ?doc 0 ?ss = (result, lastIndex)"
    by (cases "highlight_loop ?doc 0 ?ss")
  let ?spans = "result @ (if lastIndex < int (length ?doc) then [Plain (substring_from ?doc lastIndex)] else [])"
  have r: "renderContentWithHighlights st = Spans ?spans"
    using assms hl by (simp add: renderContentWithHighlights_def Let_def)
  have h: "highlights ?spans = map (\<lambda>s. (s, substring ?doc (start s) (end_at s))) ?ss"
    using highlight_loop_highlights[of ?doc 0 ?ss] hl by (simp add: highlights_append)
  then have h1: "map fst (highlights ?spans) = ?ss" by (simp add: comp_def)
  have h2: "sorted (map start (map fst (highlights ?spans)))" unfolding h1 by simp
  have h3: "\<forall>s t. (s, t) \<in> set (highlights ?spans) \<longrightarrow> t = substring ?doc (start s) (end_at s)"
    unfolding h by auto
  have h4: "concat (map span_text ?spans) = ?doc" if lo: "laid_out 0 ?ss (int (length ?doc))"
  proof -
    from highlight_loop_laid_out[OF lo] hl have f: "0 \<le> lastIndex" "lastIndex \<le> int (length ?doc)"
      "concat (map span_text result) = substring ?doc 0 lastIndex"
      by simp_all
    show ?thesis
    proof (cases "lastIndex < int (length ?doc)")
      case True
      then have "concat (map span_text ?spans)
          = substring ?doc 0 lastIndex @ substring ?doc lastIndex (int (length ?doc))"
        using f(3) by (simp add: substring_from_def)
      also have "\<dots> = substring ?doc 0 (int (length ?doc))"
        using f by (simp add: substring_append)
      finally show ?thesis by (simp add: substring_range)
    next
      case False
      with f have "lastIndex = int (length ?doc)" by simp
      with f(3) False show ?thesis by (simp add: substring_range)
    qed
  qed
  from r h1 h2 h3 h4 show ?thesis by blast
qed

theorem C6_render_amended_witness:
  "suggestions (editor_with ''A foo B foo C''
        [\<lparr> original = ''foo'', suggestion = ''ba'', reason = ''x'', mode = ''clarity'', sid = 1, start = 2, end_at = 5 \<rparr>,
         \<lparr> original = ''B'', suggestion = ''BB'', reason = ''x'', mode = ''clarity'', sid = 2, start = 6, end_at = 7 \<rparr>]) \<noteq> []
   \<and> laid_out 0 (sort_key start (suggestions (editor_with ''A foo B foo C''
        [\<lparr> original = ''foo'', suggestion = ''ba'', reason = ''x'', mode = ''clarity'', sid = 1, start = 2, end_at = 5 \<rparr>,
         \<lparr> original = ''B'', suggestion = ''BB'', reason = ''x'', mode = ''clarity'', sid = 2, start = 6, end_at = 7 \<rparr>])))
        (int (length (content (editor_with ''A foo B foo C''
        [\<lparr> original = ''foo'', suggestion = ''ba'', reason = ''x'', mode = ''clarity'', sid = 1, start = 2, end_at = 5 \<rparr>,
         \<lparr> original = ''B'', suggestion = ''BB'', reason = ''x'', mode = ''clarity'', sid = 2, start = 6, end_at = 7 \<rparr>]))))
   \<and> renderContentWithHighlights (editor_with ''A foo B foo C''
        [\<lparr> original = ''foo'', suggestion = ''ba'', reason = ''x'', mode = ''clarity'', sid = 1, start = 2, end_at = 5 \<rparr>,
         \<lparr> original = ''B'', suggestion = ''BB'', reason = ''x'', mode = ''clarity'', sid = 2, start = 6, end_at = 7 \<rparr>])
     = Spans [Plain ''A '',
              Highlight \<lparr> original = ''foo'', suggestion = ''ba'', reason = ''x'', mode = ''clarity'', sid = 1, start = 2, end_at = 5 \<rparr> ''foo'',
              Plain '' '',
              Highlight \<lparr> original = ''B'', suggestion = ''BB'', reason = ''x'', mode = ''clarity'', sid = 2, start = 6, end_at = 7 \<rparr> ''B'',
              Plain '' foo C'']
   \<and> (\<exists>spans. renderContentWithHighlights (editor_with ''A foo B foo C''
        [\<lparr> original = ''foo'', suggestion = ''ba'', reason = ''x'', mode = ''clarity'', sid = 1, start = 2, end_at = 5 \<rparr>,
         \<lparr> original = ''B'', suggestion = ''BB'', reason = ''x'', mode = ''clarity'', sid = 2, start = 6, end_at = 7 \<rparr>]) = Spans spans
         \<and> concat (map span_text spans) = ''A foo B foo C'')"
proof -
  let ?S = "\<lparr> original = ''foo'', suggestion = ''ba'', reason = ''x'', mode = ''clarity'', sid = 1, start = 2, end_at = 5 \<rparr>"
  let ?T = "\<lparr> original = ''B'', suggestion = ''BB'', reason = ''x'', mode = ''clarity'', sid = 2, start = 6, end_at = 7 \<rparr>"
  let ?st = "editor_with ''A foo B foo C'' [?S, ?T]"
  have h1: "suggestions ?st \<noteq> []" by (simp add: editor_with_def)
  have h2: "laid_out 0 (sort_key start (suggestions ?st)) (int (length (content ?st)))"
    by code_simp
  have c: "content ?st = ''A foo B foo C''" by (simp add: editor_with_def)
  have r: "renderContentWithHighlights ?st
     = Spans [Plain ''A '', Highlight ?S ''foo'', Plain '' '', Highlight ?T ''B'', Plain '' foo C'']"
    by code_simp
  from C6_render_amended[OF h1] h2 c
  have "\<exists>spans. renderContentWithHighlights ?st = Spans spans
         \<and> concat (map span_text spans) = ''A foo B foo C''"
    by auto
  with h1 h2 r show ?thesis by blast
qed

end
